theory Spec2Isabelle
  imports Main "HOL-Library.Word" "HOL-Library.List_Lexorder" "HOL-Library.Char_ord"
begin

section \<open>The room list of nheko (src/RoomList.cpp)\<close>

text \<open>
  \<^verbatim>\<open>RoomList\<close> keeps a \<^verbatim>\<open>std::map\<close> from room id to a shared pointer to a
  \<^verbatim>\<open>RoomInfoListItem\<close> widget, and a vertical box layout holding the same widgets in
  display order. The map and the layout alias the widgets, so the widgets live in an
  explicit store indexed by address; the map holds optional addresses (a null shared
  pointer is \<open>None\<close>) and the layout holds addresses.
\<close>

subsection \<open>Data\<close>

type_synonym QString = string

type_synonym addr = nat

text \<open>
  Modelled from the spec: \<^verbatim>\<open>DescInfo\<close>, the last message of a room, is declared in
  a header that is not among the sources; these are the members that \<^verbatim>\<open>RoomList\<close>
  reads. \<open>datetime\<close> is the value of \<^verbatim>\<open>datetime.toMSecsSinceEpoch()\<close>, a signed
  64-bit integer; the sort stores it in a \<^verbatim>\<open>uint64_t\<close>, which keeps the bit pattern,
  and compares it unsigned, as the order of \<open>64 word\<close> does.
\<close>

record DescInfo =
  userid :: QString
  body :: QString
  datetime :: "64 word"

text \<open>
  Modelled from the spec: the class \<^verbatim>\<open>RoomInfoListItem\<close> is not among the sources.
  A widget has one field for each accessor that \<^verbatim>\<open>RoomList\<close> calls:
  \<^verbatim>\<open>roomId()\<close>, \<^verbatim>\<open>isInvite()\<close>, \<^verbatim>\<open>unreadMessageCount()\<close> (set by
  \<^verbatim>\<open>updateUnreadMessageCount\<close>, a C++ \<^verbatim>\<open>int\<close>), the pressed state (set by
  \<^verbatim>\<open>setPressedState\<close>), \<^verbatim>\<open>lastMessageInfo()\<close> (set by
  \<^verbatim>\<open>setDescriptionMessage\<close>) and \<^verbatim>\<open>isVisible()\<close> (set by \<^verbatim>\<open>show()\<close> and
  \<^verbatim>\<open>hide()\<close>; the list itself is taken to be shown).
\<close>

record RoomInfoListItem =
  roomId :: QString
  isInvite :: bool
  unreadMessageCount :: "32 word"
  isPressed :: bool
  lastMessageInfo :: DescInfo
  isVisible :: bool

text \<open>
  Modelled from the spec: \<^verbatim>\<open>RoomInfo\<close> is declared in a header that is not among
  the sources; these are the members that \<^verbatim>\<open>RoomList\<close> reads.
\<close>

record RoomInfo =
  name :: string
  avatar_url :: string
  is_invite :: bool
  msgInfo :: DescInfo

text \<open>
  An entry of \<^verbatim>\<open>contentsLayout_\<close>: a room widget, or an item for which
  \<^verbatim>\<open>qobject_cast<RoomInfoListItem *>\<close> gives null.
\<close>

datatype layout_item = RoomWidget addr | OtherItem

text \<open>What the object sends out: emitted signals and logged warnings, in order.\<close>

datatype effect =
    roomChanged QString
  | totalUnreadMessageCountUpdated "32 word"
  | nhlog_warn string
  | nhlog_info string

text \<open>Undefined behaviour of the C++ is a value of the model.\<close>

datatype fault = NullDeref | EndIteratorDeref | UseAfterFree

record RoomList =
  rooms :: "(QString \<times> addr option) list"
  heap :: "addr \<Rightarrow> RoomInfoListItem"
  contentsLayout :: "layout_item list"
  selectedRoom :: QString
  isSortPending :: bool
  underMouse :: bool
  timers :: nat
  effects :: "effect list"

text \<open>
  \<open>rooms\<close> lists the entries of \<^verbatim>\<open>rooms_\<close> in iteration order, which for a
  \<^verbatim>\<open>std::map\<close> is ascending key order. \<open>underMouse\<close> is what the toolkit's
  \<^verbatim>\<open>underMouse()\<close> answers. \<open>timers\<close> counts the single-shot timers that
  \<^verbatim>\<open>leaveEvent\<close> has started and that have not fired yet.
\<close>

definition emit :: "effect \<Rightarrow> RoomList \<Rightarrow> RoomList" where
  "emit e s = s\<lparr>effects := effects s @ [e]\<rparr>"

definition onItem :: "addr \<Rightarrow> (RoomInfoListItem \<Rightarrow> RoomInfoListItem) \<Rightarrow> RoomList \<Rightarrow> RoomList" where
  "onItem a f s = s\<lparr>heap := (heap s)(a := f (heap s a))\<rparr>"

definition setPressedState :: "addr \<Rightarrow> bool \<Rightarrow> RoomList \<Rightarrow> RoomList" where
  "setPressedState a b = onItem a (\<lambda>w. w\<lparr>isPressed := b\<rparr>)"

text \<open>
  Modelled from the spec: \<^verbatim>\<open>roomExists\<close> is declared in RoomList.h, which is not
  among the sources; an id exists when it is a key of the room map.
\<close>

definition roomExists :: "RoomList \<Rightarrow> QString \<Rightarrow> bool" where
  "roomExists s room_id = (map_of (rooms s) room_id \<noteq> None)"

text \<open>The room widgets of a layout, in layout order.\<close>

fun roomWidgets :: "layout_item list \<Rightarrow> addr list" where
  "roomWidgets [] = []"
| "roomWidgets (OtherItem # rest) = roomWidgets rest"
| "roomWidgets (RoomWidget a # rest) = a # roomWidgets rest"

fun otherItems :: "layout_item list \<Rightarrow> layout_item list" where
  "otherItems [] = []"
| "otherItems (OtherItem # rest) = OtherItem # otherItems rest"
| "otherItems (RoomWidget a # rest) = otherItems rest"

text \<open>
  Erasing an entry of \<^verbatim>\<open>rooms_\<close> drops the only shared pointer to its widget; the
  widget is deleted, and the toolkit takes a deleted widget out of its layout.
\<close>

fun owned :: "(QString \<times> addr option) list \<Rightarrow> addr list" where
  "owned [] = []"
| "owned ((k, None) # rest) = owned rest"
| "owned ((k, Some a) # rest) = a # owned rest"

definition dropDeleted :: "addr list \<Rightarrow> layout_item list \<Rightarrow> layout_item list" where
  "dropDeleted gone L = filter (\<lambda>it. case it of RoomWidget a \<Rightarrow> a \<notin> set gone | OtherItem \<Rightarrow> True) L"

text \<open>
  Modelled from the spec: \<^verbatim>\<open>utils::erase_if\<close> is defined in Utils.h, which is not
  among the sources; it erases every entry for which the predicate holds.
\<close>

definition erase_if :: "(QString \<times> addr option \<Rightarrow> bool) \<Rightarrow> RoomList \<Rightarrow> RoomList" where
  "erase_if pred s =
     s\<lparr>rooms := filter (\<lambda>e. \<not> pred e) (rooms s),
       contentsLayout := dropDeleted (owned (filter pred (rooms s))) (contentsLayout s)\<rparr>"

text \<open>\<^verbatim>\<open>rooms_.erase(room_id)\<close>\<close>

definition rooms_erase :: "QString \<Rightarrow> RoomList \<Rightarrow> RoomList" where
  "rooms_erase room_id s =
     s\<lparr>rooms := filter (\<lambda>e. fst e \<noteq> room_id) (rooms s),
       contentsLayout :=
         dropDeleted (owned (filter (\<lambda>e. fst e = room_id) (rooms s))) (contentsLayout s)\<rparr>"

subsection \<open>firstRoom, removeRoom\<close>

text \<open>
  \<^verbatim>\<open>while (firstRoom->second.isNull() && firstRoom != rooms_.end()) firstRoom++;\<close>
  The left operand reads through the iterator before the right one compares it with
  the end: at the end of the map the read is out of bounds. Where the read succeeds the
  iterator is not the end, so the loop goes on exactly while the item is null.
\<close>

fun firstRoom :: "(QString \<times> addr option) list \<Rightarrow> fault + (QString \<times> addr option)" where
  "firstRoom [] = Inl EndIteratorDeref"
| "firstRoom ((k, p) # rest) = (if p = None then firstRoom rest else Inr (k, p))"

definition removeRoom :: "QString \<Rightarrow> bool \<Rightarrow> RoomList \<Rightarrow> fault + RoomList" where
  "removeRoom room_id reset s =
     (let s1 = rooms_erase room_id s in
      if rooms s1 = [] \<or> \<not> reset then Inr s1
      else case firstRoom (rooms s1) of
             Inl f \<Rightarrow> Inl f
           | Inr (k, None) \<Rightarrow> Inr s1
           | Inr (k, Some a) \<Rightarrow> Inr (emit (roomChanged k) (setPressedState a True s1)))"

subsection \<open>Unread counts\<close>

text \<open>The loop of \<^verbatim>\<open>calculateUnreadMessageCount\<close>; null items are skipped.\<close>

fun total_unread_msgs :: "(QString \<times> addr option) list \<Rightarrow> (addr \<Rightarrow> RoomInfoListItem) \<Rightarrow> 32 word \<Rightarrow> 32 word" where
  "total_unread_msgs [] h n = n"
| "total_unread_msgs ((k, None) # rest) h n = total_unread_msgs rest h n"
| "total_unread_msgs ((k, Some a) # rest) h n =
     total_unread_msgs rest h (n + unreadMessageCount (h a))"

definition calculateUnreadMessageCount :: "RoomList \<Rightarrow> RoomList" where
  "calculateUnreadMessageCount s =
     emit (totalUnreadMessageCountUpdated (total_unread_msgs (rooms s) (heap s) 0)) s"

text \<open>
  \<^verbatim>\<open>rooms_[roomid]->updateUnreadMessageCount(count)\<close> goes through the shared pointer
  without a test: on a null item it is a null dereference.
\<close>

definition updateUnreadMessageCount :: "QString \<Rightarrow> 32 word \<Rightarrow> RoomList \<Rightarrow> fault + RoomList" where
  "updateUnreadMessageCount roomid count s =
     (if \<not> roomExists s roomid
      then Inr (emit (nhlog_warn (''updateUnreadMessageCount: unknown room_id '' @ roomid)) s)
      else case map_of (rooms s) roomid of
             Some (Some a) \<Rightarrow>
               Inr (calculateUnreadMessageCount (onItem a (\<lambda>w. w\<lparr>unreadMessageCount := count\<rparr>) s))
           | _ \<Rightarrow> Inl NullDeref)"

subsection \<open>Invites\<close>

text \<open>
  \<^verbatim>\<open>std::map<QString, bool>\<close> arguments are lists of key and value; only their size
  and their keys are looked at.
\<close>

definition cleanupInvites :: "(QString \<times> bool) list \<Rightarrow> RoomList \<Rightarrow> RoomList" where
  "cleanupInvites invites s =
     (if length invites = 0 then s
      else erase_if (\<lambda>(room_id, item).
             case item of
               None \<Rightarrow> False
             | Some a \<Rightarrow> isInvite (heap s a) \<and> map_of invites room_id = None) s)"

subsection \<open>Selection\<close>

text \<open>
  The loop of \<^verbatim>\<open>highlightSelectedRoom\<close> over the room map. Scrolling the selected
  widget into view is outside the model.
\<close>

fun pressRooms :: "QString \<Rightarrow> (QString \<times> addr option) list \<Rightarrow> (addr \<Rightarrow> RoomInfoListItem) \<Rightarrow> (addr \<Rightarrow> RoomInfoListItem)" where
  "pressRooms room_id [] h = h"
| "pressRooms room_id ((k, None) # rest) h = pressRooms room_id rest h"
| "pressRooms room_id ((k, Some a) # rest) h =
     pressRooms room_id rest
       (if k \<noteq> room_id then h(a := (h a)\<lparr>isPressed := False\<rparr>)
        else h(a := (h a)\<lparr>isPressed := True\<rparr>))"

definition highlightSelectedRoom :: "QString \<Rightarrow> RoomList \<Rightarrow> RoomList" where
  "highlightSelectedRoom room_id s =
     (let s1 = emit (roomChanged room_id) s in
      if \<not> roomExists s1 room_id then emit (nhlog_warn ''roomlist: clicked unknown room_id'') s1
      else s1\<lparr>heap := pressRooms room_id (rooms s1) (heap s1), selectedRoom := room_id\<rparr>)"

subsection \<open>Sorting by last message\<close>

definition times_key :: "RoomInfoListItem \<Rightarrow> 64 word" where
  "times_key room =
     (if userid (lastMessageInfo room) = [] then 0 else datetime (lastMessageInfo room))"

text \<open>
  \<^verbatim>\<open>std::multimap<uint64_t, RoomInfoListItem *, std::greater<uint64_t>>::emplace\<close>:
  the new element goes behind the elements whose key is not smaller, in front of the
  first element with a smaller key.
\<close>

fun multimap_emplace :: "64 word \<Rightarrow> addr \<Rightarrow> (64 word \<times> addr) list \<Rightarrow> (64 word \<times> addr) list" where
  "multimap_emplace k v [] = [(k, v)]"
| "multimap_emplace k v ((k', v') # xs) =
     (if k' < k then (k, v) # (k', v') # xs else (k', v') # multimap_emplace k v xs)"

text \<open>The first loop of \<^verbatim>\<open>sortRoomsByLastMessage\<close>, which fills the multimap.\<close>

fun collect_times :: "(addr \<Rightarrow> RoomInfoListItem) \<Rightarrow> layout_item list \<Rightarrow> (64 word \<times> addr) list \<Rightarrow> (64 word \<times> addr) list" where
  "collect_times h [] tms = tms"
| "collect_times h (OtherItem # rest) tms = collect_times h rest tms"
| "collect_times h (RoomWidget a # rest) tms =
     collect_times h rest (multimap_emplace (times_key (h a)) a tms)"

text \<open>\<^verbatim>\<open>QLayout::indexOf\<close>: the index of the widget's item, -1 when there is none.\<close>

fun indexOf :: "addr \<Rightarrow> layout_item list \<Rightarrow> int" where
  "indexOf w [] = - 1"
| "indexOf w (x # xs) =
     (if x = RoomWidget w then 0
      else (let r = indexOf w xs in if r < 0 then - 1 else r + 1))"

definition removeWidget :: "addr \<Rightarrow> layout_item list \<Rightarrow> layout_item list" where
  "removeWidget w L = remove1 (RoomWidget w) L"

text \<open>\<^verbatim>\<open>QBoxLayout::insertWidget\<close>: a negative index appends.\<close>

definition insertWidget :: "int \<Rightarrow> addr \<Rightarrow> layout_item list \<Rightarrow> layout_item list" where
  "insertWidget index w L =
     (if index < 0 then L @ [RoomWidget w]
      else take (nat index) L @ RoomWidget w # drop (nat index) L)"

text \<open>
  The second loop of \<^verbatim>\<open>sortRoomsByLastMessage\<close>: the widget at position
  \<open>newIndex\<close> of the multimap is moved to index \<open>newIndex\<close> of the layout unless it
  is there already.
\<close>

fun reposition :: "nat \<Rightarrow> (64 word \<times> addr) list \<Rightarrow> layout_item list \<Rightarrow> layout_item list" where
  "reposition newIndex [] L = L"
| "reposition newIndex ((k, roomWidget) # rest) L =
     reposition (Suc newIndex) rest
       (if indexOf roomWidget L = int newIndex then L
        else insertWidget (int newIndex) roomWidget (removeWidget roomWidget L))"

definition sortRoomsByLastMessage :: "RoomList \<Rightarrow> RoomList" where
  "sortRoomsByLastMessage s =
     (let s1 = s\<lparr>isSortPending := False\<rparr>;
          tms = collect_times (heap s1) (contentsLayout s1) []
      in s1\<lparr>contentsLayout := reposition 0 tms (contentsLayout s1)\<rparr>)"

definition updateRoomDescription :: "QString \<Rightarrow> DescInfo \<Rightarrow> RoomList \<Rightarrow> fault + RoomList" where
  "updateRoomDescription roomid info s =
     (if \<not> roomExists s roomid
      then Inr (emit (nhlog_warn (''description update on non-existent room_id: '' @ roomid
                  @ '', '' @ body info)) s)
      else case map_of (rooms s) roomid of
             Some (Some a) \<Rightarrow>
               (let s1 = onItem a (\<lambda>w. w\<lparr>lastMessageInfo := info\<rparr>) s in
                if underMouse s1 then Inr (s1\<lparr>isSortPending := True\<rparr>)
                else Inr (sortRoomsByLastMessage (s1\<lparr>isSortPending := False\<rparr>)))
           | _ \<Rightarrow> Inl NullDeref)"

text \<open>
  \<^verbatim>\<open>leaveEvent\<close> starts a single-shot timer when a sort is pending; when a timer
  fires it calls \<^verbatim>\<open>sortRoomsByLastMessage\<close>.
\<close>

definition leaveEvent :: "RoomList \<Rightarrow> RoomList" where
  "leaveEvent s = (if isSortPending s then s\<lparr>timers := Suc (timers s)\<rparr> else s)"

definition timeout :: "RoomList \<Rightarrow> RoomList" where
  "timeout s = sortRoomsByLastMessage (s\<lparr>timers := timers s - 1\<rparr>)"

subsection \<open>Filtering\<close>

text \<open>The loop of \<^verbatim>\<open>removeFilter\<close> over the layout.\<close>

fun showItems :: "layout_item list \<Rightarrow> (addr \<Rightarrow> RoomInfoListItem) \<Rightarrow> (addr \<Rightarrow> RoomInfoListItem)" where
  "showItems [] h = h"
| "showItems (OtherItem # rest) h = showItems rest h"
| "showItems (RoomWidget a # rest) h = showItems rest (h(a := (h a)\<lparr>isVisible := True\<rparr>))"

definition removeFilter :: "RoomList \<Rightarrow> RoomList" where
  "removeFilter s = s\<lparr>heap := showItems (contentsLayout s) (heap s)\<rparr>"

text \<open>
  The loop of \<^verbatim>\<open>applyFilter\<close> over the layout; \<^verbatim>\<open>filter.find\<close> looks at the keys
  only.
\<close>

fun filterItems :: "(QString \<times> bool) list \<Rightarrow> layout_item list \<Rightarrow> (addr \<Rightarrow> RoomInfoListItem) \<Rightarrow> (addr \<Rightarrow> RoomInfoListItem)" where
  "filterItems flt [] h = h"
| "filterItems flt (OtherItem # rest) h = filterItems flt rest h"
| "filterItems flt (RoomWidget a # rest) h =
     filterItems flt rest
       (if map_of flt (roomId (h a)) \<noteq> None then h(a := (h a)\<lparr>isVisible := True\<rparr>)
        else h(a := (h a)\<lparr>isVisible := False\<rparr>))"

text \<open>The loop of \<^verbatim>\<open>selectFirstVisibleRoom\<close>, which stops at the first visible room.\<close>

fun selectFirstVisible :: "layout_item list \<Rightarrow> RoomList \<Rightarrow> RoomList" where
  "selectFirstVisible [] s = s"
| "selectFirstVisible (OtherItem # rest) s = selectFirstVisible rest s"
| "selectFirstVisible (RoomWidget a # rest) s =
     (if isVisible (heap s a) then highlightSelectedRoom (roomId (heap s a)) s
      else selectFirstVisible rest s)"

definition selectFirstVisibleRoom :: "RoomList \<Rightarrow> RoomList" where
  "selectFirstVisibleRoom s = selectFirstVisible (contentsLayout s) s"

definition applyFilter :: "(QString \<times> bool) list \<Rightarrow> RoomList \<Rightarrow> RoomList" where
  "applyFilter flt s =
     (let s1 = s\<lparr>heap := filterItems flt (contentsLayout s) (heap s)\<rparr> in
      if selectedRoom s1 \<noteq> [] \<and> map_of flt (selectedRoom s1) \<noteq> None then s1
      else selectFirstVisibleRoom s1)"

subsection \<open>Adding rooms, initialize\<close>

text \<open>
  Modelled from the spec: the constructor of \<^verbatim>\<open>RoomInfoListItem\<close> is not among the
  sources; a new room has the given id, is an invite or not as the info says, and has
  no unread message and no last message yet.
\<close>

definition newRoomInfoListItem :: "QString \<Rightarrow> RoomInfo \<Rightarrow> RoomInfoListItem" where
  "newRoomInfoListItem room_id info =
     \<lparr>roomId = room_id, isInvite = is_invite info, unreadMessageCount = 0, isPressed = False,
      lastMessageInfo = \<lparr>userid = [], body = [], datetime = 0\<rparr>, isVisible = True\<rparr>"

text \<open>\<^verbatim>\<open>new\<close> gives an address that no entry and no layout item holds.\<close>

definition freshAddr :: "RoomList \<Rightarrow> addr" where
  "freshAddr s = Suc (fold max (owned (rooms s) @ roomWidgets (contentsLayout s)) 0)"

text \<open>\<^verbatim>\<open>std::map::emplace\<close>: nothing is stored when the key is there already.\<close>

fun rooms_emplace :: "QString \<Rightarrow> addr option \<Rightarrow> (QString \<times> addr option) list \<Rightarrow> (QString \<times> addr option) list" where
  "rooms_emplace k v [] = [(k, v)]"
| "rooms_emplace k v ((k', v') # rest) =
     (if k < k' then (k, v) # (k', v') # rest
      else if k = k' then (k', v') # rest
      else (k', v') # rooms_emplace k v rest)"

text \<open>
  When the key is already in the map, \<^verbatim>\<open>emplace\<close> destroys the shared pointer it was
  given, which deletes the new widget, and the widget is then handed to the layout.
  The avatar and the room name are outside the model.
\<close>

definition addRoom :: "QString \<Rightarrow> RoomInfo \<Rightarrow> RoomList \<Rightarrow> fault + RoomList" where
  "addRoom room_id info s =
     (let room_item = freshAddr s;
          s1 = s\<lparr>heap := (heap s)(room_item := newRoomInfoListItem room_id info)\<rparr>
      in if roomExists s1 room_id then Inl UseAfterFree
         else (let s2 = s1\<lparr>rooms := rooms_emplace room_id (Some room_item) (rooms s1)\<rparr>;
                   pos = int (length (contentsLayout s2)) - 1
               in Inr (s2\<lparr>contentsLayout := insertWidget pos room_item (contentsLayout s2)\<rparr>)))"

definition addInvitedRoom :: "QString \<Rightarrow> RoomInfo \<Rightarrow> RoomList \<Rightarrow> fault + RoomList" where
  "addInvitedRoom room_id info s =
     (let room_item = freshAddr s;
          s1 = s\<lparr>heap := (heap s)(room_item := newRoomInfoListItem room_id info)\<rparr>
      in if roomExists s1 room_id then Inl UseAfterFree
         else (let s2 = s1\<lparr>rooms := rooms_emplace room_id (Some room_item) (rooms s1)\<rparr>;
                   pos = int (length (contentsLayout s2)) - 1
               in Inr (s2\<lparr>contentsLayout := insertWidget pos room_item (contentsLayout s2)\<rparr>)))"

text \<open>\<^verbatim>\<open>rooms_.clear()\<close>\<close>

definition rooms_clear :: "RoomList \<Rightarrow> RoomList" where
  "rooms_clear s =
     s\<lparr>rooms := [], contentsLayout := dropDeleted (owned (rooms s)) (contentsLayout s)\<rparr>"

fun addRooms :: "(QString \<times> RoomInfo) list \<Rightarrow> RoomList \<Rightarrow> fault + RoomList" where
  "addRooms [] s = Inr s"
| "addRooms ((k, v) # rest) s =
     (case (if is_invite v then addInvitedRoom k v s else addRoom k v s) of
        Inl f \<Rightarrow> Inl f
      | Inr s1 \<Rightarrow> addRooms rest s1)"

fun updateRoomDescriptions :: "(QString \<times> RoomInfo) list \<Rightarrow> RoomList \<Rightarrow> fault + RoomList" where
  "updateRoomDescriptions [] s = Inr s"
| "updateRoomDescriptions ((k, v) # rest) s =
     (case updateRoomDescription k (msgInfo v) s of
        Inl f \<Rightarrow> Inl f
      | Inr s1 \<Rightarrow> updateRoomDescriptions rest s1)"

text \<open>The two loops of \<^verbatim>\<open>initialize\<close>, up to its test of \<^verbatim>\<open>rooms_.empty()\<close>.\<close>

definition initialize_fill :: "(QString \<times> RoomInfo) list \<Rightarrow> RoomList \<Rightarrow> fault + RoomList" where
  "initialize_fill info s =
     (case addRooms info (rooms_clear (emit (nhlog_info ''initialize room list'') s)) of
        Inl f \<Rightarrow> Inl f
      | Inr s1 \<Rightarrow> updateRoomDescriptions info s1)"

definition initialize :: "(QString \<times> RoomInfo) list \<Rightarrow> RoomList \<Rightarrow> fault + RoomList" where
  "initialize info s =
     (case initialize_fill info s of
        Inl f \<Rightarrow> Inl f
      | Inr s2 \<Rightarrow>
          (if rooms s2 = [] then Inr s2
           else (case firstRoom (rooms s2) of
                   Inl f \<Rightarrow> Inl f
                 | Inr (k, None) \<Rightarrow> Inr s2
                 | Inr (k, Some a) \<Rightarrow> Inr (emit (roomChanged k) (setPressedState a True s2)))))"

subsection \<open>Well-formed rosters\<close>

text \<open>
  What the member functions keep true of the object: the entries of the room map are in
  ascending key order, every entry holds an item (\<^verbatim>\<open>emplace\<close> is only ever given a
  new widget) whose room id is its key, and the room widgets in the layout are exactly the
  items of the map, each once.
\<close>

fun holdsRoom :: "(addr \<Rightarrow> RoomInfoListItem) \<Rightarrow> QString \<times> addr option \<Rightarrow> bool" where
  "holdsRoom h (k, None) = False"
| "holdsRoom h (k, Some a) = (roomId (h a) = k)"

definition RoomList_inv :: "RoomList \<Rightarrow> bool" where
  "RoomList_inv s \<longleftrightarrow>
     sorted_wrt (<) (map fst (rooms s))
     \<and> list_all (holdsRoom (heap s)) (rooms s)
     \<and> distinct (roomWidgets (contentsLayout s))
     \<and> set (roomWidgets (contentsLayout s)) = set (owned (rooms s))"

subsection \<open>Reading the layout\<close>

text \<open>The first room in the layout, which is the order on screen.\<close>

definition firstInLayout :: "RoomList \<Rightarrow> QString option" where
  "firstInLayout s =
     (case roomWidgets (contentsLayout s) of [] \<Rightarrow> None | a # _ \<Rightarrow> Some (roomId (heap s a)))"

text \<open>
  The sum of the unread counts over the rooms of the room map, as an integer; each
  count is read as the C++ \<^verbatim>\<open>int\<close> that it is.
\<close>

definition unreadTotal :: "RoomList \<Rightarrow> int" where
  "unreadTotal s = sum_list (map (\<lambda>b. sint (unreadMessageCount (heap s b))) (owned (rooms s)))"

subsection \<open>Events\<close>

text \<open>
  What reaches the room list from outside while the pointer moves and messages arrive:
  the pointer leaves the widget (\<^verbatim>\<open>leaveEvent\<close>), the toolkit's answer to
  \<^verbatim>\<open>underMouse()\<close> changes, a description update arrives, a single-shot timer fires.
  A timer can fire only when one has been started.
\<close>

datatype ui_event = LeaveEvent | Hover bool | DescriptionUpdate QString DescInfo | TimerShot

fun deliver :: "ui_event \<Rightarrow> RoomList \<Rightarrow> fault + RoomList" where
  "deliver LeaveEvent s = Inr (leaveEvent s)"
| "deliver (Hover b) s = Inr (s\<lparr>underMouse := b\<rparr>)"
| "deliver (DescriptionUpdate roomid info) s = updateRoomDescription roomid info s"
| "deliver TimerShot s = (if timers s = 0 then Inr s else Inr (timeout s))"

fun run :: "ui_event list \<Rightarrow> RoomList \<Rightarrow> fault + RoomList" where
  "run [] s = Inr s"
| "run (e # es) s = (case deliver e s of Inl f \<Rightarrow> Inl f | Inr s1 \<Rightarrow> run es s1)"

text \<open>
  While a timer is outstanding, a sort is pending or the layout is already what
  \<^verbatim>\<open>sortRoomsByLastMessage\<close> would make of it.
\<close>

definition calm :: "RoomList \<Rightarrow> bool" where
  "calm s \<longleftrightarrow>
     distinct (roomWidgets (contentsLayout s))
     \<and> (0 < timers s \<longrightarrow>
          isSortPending s \<or> contentsLayout (sortRoomsByLastMessage s) = contentsLayout s)"


subsection \<open>Example rosters\<close>

definition noMessage :: DescInfo where
  "noMessage = \<lparr>userid = [], body = [], datetime = 0\<rparr>"

definition message :: "64 word \<Rightarrow> DescInfo" where
  "message t = \<lparr>userid = ''@u:example.org'', body = ''hello'', datetime = t\<rparr>"

definition roomItem :: "QString \<Rightarrow> bool \<Rightarrow> DescInfo \<Rightarrow> RoomInfoListItem" where
  "roomItem k invited d =
     \<lparr>roomId = k, isInvite = invited, unreadMessageCount = 0, isPressed = False,
      lastMessageInfo = d, isVisible = True\<rparr>"

text \<open>Three rooms, shown in the order of their last messages; the third is an invite.\<close>

definition roster3 :: RoomList where
  "roster3 =
     \<lparr>rooms = [(''!a'', Some 1), (''!b'', Some 2), (''!c'', Some 3)],
      heap = (\<lambda>_. roomItem [] False noMessage)
               (1 := roomItem ''!a'' False (message 100),
                2 := roomItem ''!b'' False (message 200),
                3 := roomItem ''!c'' True noMessage),
      contentsLayout = [RoomWidget 2, RoomWidget 1, RoomWidget 3],
      selectedRoom = ''!b'',
      isSortPending = False,
      underMouse = False,
      timers = 0,
      effects = []\<rparr>"

text \<open>One room, selected.\<close>

definition roster1 :: RoomList where
  "roster1 =
     \<lparr>rooms = [(''!a'', Some 1)],
      heap = (\<lambda>_. roomItem [] False noMessage)(1 := roomItem ''!a'' False (message 100)),
      contentsLayout = [RoomWidget 1],
      selectedRoom = ''!a'',
      isSortPending = False,
      underMouse = False,
      timers = 0,
      effects = []\<rparr>"

text \<open>The three rooms with the first one hidden by a filter.\<close>

definition rosterHidden :: RoomList where
  "rosterHidden =
     roster3\<lparr>heap := (heap roster3)(1 := (roomItem ''!a'' False (message 100))\<lparr>isVisible := False\<rparr>)\<rparr>"

text \<open>
  Five rooms out of order, with an item in the layout that is not a room: !c and !d
  have no message, !a and !e have messages with the same timestamp.
\<close>

definition rosterUnsorted :: RoomList where
  "rosterUnsorted =
     \<lparr>rooms = [(''!a'', Some 1), (''!b'', Some 2), (''!c'', Some 3), (''!d'', Some 4),
               (''!e'', Some 5)],
      heap = (\<lambda>_. roomItem [] False noMessage)
               (1 := roomItem ''!a'' False (message 100),
                2 := roomItem ''!b'' False (message 200),
                3 := roomItem ''!c'' True noMessage,
                4 := roomItem ''!d'' False noMessage,
                5 := roomItem ''!e'' False (message 100)),
      contentsLayout = [RoomWidget 3, RoomWidget 1, OtherItem, RoomWidget 4, RoomWidget 2,
                        RoomWidget 5],
      selectedRoom = ''!b'',
      isSortPending = True,
      underMouse = False,
      timers = 0,
      effects = []\<rparr>"

text \<open>
  Four rooms: one without a message, one with a message dated 0, one dated 100 and one
  dated one millisecond before the epoch.
\<close>

definition rosterEpoch :: RoomList where
  "rosterEpoch =
     \<lparr>rooms = [(''!a'', Some 1), (''!b'', Some 2), (''!c'', Some 3), (''!d'', Some 4)],
      heap = (\<lambda>_. roomItem [] False noMessage)
               (1 := roomItem ''!a'' False noMessage,
                2 := roomItem ''!b'' False (message 0),
                3 := roomItem ''!c'' False (message 100),
                4 := roomItem ''!d'' False (message (- 1))),
      contentsLayout = [RoomWidget 1, RoomWidget 2, RoomWidget 3, RoomWidget 4],
      selectedRoom = ''!a'',
      isSortPending = False,
      underMouse = False,
      timers = 0,
      effects = []\<rparr>"

text \<open>The three rooms with the pointer over the list.\<close>

definition rosterHovered :: RoomList where
  "rosterHovered = roster3\<lparr>underMouse := True\<rparr>"

text \<open>Two rooms, both with messages, the pointer over the list; and a room to add.\<close>

definition roster2 :: RoomList where
  "roster2 =
     \<lparr>rooms = [(''!a'', Some 1), (''!b'', Some 2)],
      heap = (\<lambda>_. roomItem [] False noMessage)
               (1 := roomItem ''!a'' False (message 100),
                2 := roomItem ''!b'' False (message 200)),
      contentsLayout = [RoomWidget 2, RoomWidget 1],
      selectedRoom = ''!b'',
      isSortPending = False,
      underMouse = True,
      timers = 0,
      effects = []\<rparr>"

definition newcomer :: RoomInfo where
  "newcomer = \<lparr>name = ''D'', avatar_url = [], is_invite = False, msgInfo = noMessage\<rparr>"

text \<open>A room map whose only entry holds a null item.\<close>

definition rosterNull :: RoomList where
  "rosterNull =
     \<lparr>rooms = [(''!n'', None)],
      heap = (\<lambda>_. roomItem [] False noMessage),
      contentsLayout = [],
      selectedRoom = [],
      isSortPending = False,
      underMouse = False,
      timers = 0,
      effects = []\<rparr>"

section \<open>Properties\<close>

subsection \<open>firstRoom and removeRoom\<close>

lemma firstRoom_Inl_iff:
  "firstRoom rs = Inl f \<longleftrightarrow> f = EndIteratorDeref \<and> (\<forall>e \<in> set rs. snd e = None)"
  by (induction rs) (auto split: if_splits)

lemma firstRoom_Inr_iff:
  "firstRoom rs = Inr e \<longleftrightarrow> find (\<lambda>e. snd e \<noteq> None) rs = Some e"
  by (induction rs) (auto split: if_splits)

lemma firstRoom_Inr_D:
  "firstRoom rs = Inr e \<Longrightarrow> e \<in> set rs \<and> snd e \<noteq> None"
  by (induction rs) (auto split: if_splits)

lemma firstRoom_cases:
  "(firstRoom rs = Inl EndIteratorDeref \<and> (\<forall>e \<in> set rs. snd e = None))
   \<or> (\<exists>k a. firstRoom rs = Inr (k, Some a) \<and> (k, Some a) \<in> set rs)"
proof (induction rs)
  case Nil
  show ?case by simp
next
  case (Cons e rs)
  obtain k p where e: "e = (k, p)" by (cases e)
  show ?case
  proof (cases p)
    case None
    with e have step: "firstRoom (e # rs) = firstRoom rs" by simp
    from Cons.IH show ?thesis
    proof
      assume "firstRoom rs = Inl EndIteratorDeref \<and> (\<forall>e \<in> set rs. snd e = None)"
      with step e None show ?thesis by simp
    next
      assume "\<exists>k a. firstRoom rs = Inr (k, Some a) \<and> (k, Some a) \<in> set rs"
      with step show ?thesis by auto
    qed
  next
    case (Some a)
    with e show ?thesis by simp
  qed
qed

lemma first_found_least:
  fixes rs :: "(QString \<times> 'v) list"
  assumes "sorted_wrt (<) (map fst rs)" and "find P rs = Some x" and "e \<in> set rs" and "P e"
  shows "fst x \<le> fst e"
  using assms by (induction rs) (auto split: if_splits)

lemma rooms_erase_frame:
  "selectedRoom (rooms_erase room_id s) = selectedRoom s"
  "effects (rooms_erase room_id s) = effects s"
  "heap (rooms_erase room_id s) = heap s"
  by (simp_all add: rooms_erase_def)

text \<open>
  C9. The scan of \<^verbatim>\<open>firstRoom\<close> stays in bounds exactly when the room map holds an
  item that is not null: it returns an entry iff there is one, and it reads through the
  end iterator iff every item is null, which includes the empty map. Its callers test
  emptiness only: \<^verbatim>\<open>removeRoom\<close> runs into that read exactly when it is asked to
  reset the selection and the map left after the erase is non-empty with only null items,
  and \<^verbatim>\<open>initialize\<close> exactly when the map it has filled is non-empty with only null
  items.
\<close>

theorem firstRoom_in_bounds_iff:
  "((\<exists>r. firstRoom rs = Inr r) \<longleftrightarrow> (\<exists>e \<in> set rs. snd e \<noteq> None))
   \<and> (firstRoom rs = Inl EndIteratorDeref \<longleftrightarrow> (\<forall>e \<in> set rs. snd e = None))
   \<and> (removeRoom room_id reset s = Inl EndIteratorDeref \<longleftrightarrow>
        reset \<and> rooms (rooms_erase room_id s) \<noteq> []
        \<and> (\<forall>e \<in> set (rooms (rooms_erase room_id s)). snd e = None))
   \<and> (initialize_fill info s0 = Inr s2 \<longrightarrow>
        (initialize info s0 = Inl EndIteratorDeref \<longleftrightarrow>
           rooms s2 \<noteq> [] \<and> (\<forall>e \<in> set (rooms s2). snd e = None)))"
proof (intro conjI impI)
  show "(\<exists>r. firstRoom rs = Inr r) \<longleftrightarrow> (\<exists>e \<in> set rs. snd e \<noteq> None)"
  proof (cases "firstRoom rs")
    case (Inl f)
    then have "\<forall>e \<in> set rs. snd e = None"
      using firstRoom_Inl_iff [of rs f] by blast
    with Inl show ?thesis by auto
  next
    case (Inr e)
    from firstRoom_Inr_D [OF this] show ?thesis using Inr by blast
  qed
  show "firstRoom rs = Inl EndIteratorDeref \<longleftrightarrow> (\<forall>e \<in> set rs. snd e = None)"
    by (simp add: firstRoom_Inl_iff)
  show "removeRoom room_id reset s = Inl EndIteratorDeref \<longleftrightarrow>
        reset \<and> rooms (rooms_erase room_id s) \<noteq> []
        \<and> (\<forall>e \<in> set (rooms (rooms_erase room_id s)). snd e = None)"
    using firstRoom_cases [of "rooms (rooms_erase room_id s)"]
    by (auto simp: removeRoom_def Let_def)
  assume "initialize_fill info s0 = Inr s2"
  then show "initialize info s0 = Inl EndIteratorDeref \<longleftrightarrow>
        rooms s2 \<noteq> [] \<and> (\<forall>e \<in> set (rooms s2). snd e = None)"
    using firstRoom_cases [of "rooms s2"]
    by (auto simp: initialize_def)
qed

theorem firstRoom_in_bounds_iff_witness:
  "firstRoom [] = Inl EndIteratorDeref
   \<and> firstRoom (rooms rosterNull) = Inl EndIteratorDeref
   \<and> removeRoom ''!x'' True rosterNull = Inl EndIteratorDeref
   \<and> (\<exists>r. firstRoom (rooms roster3) = Inr r)
   \<and> initialize_fill [] roster1 = Inr (rooms_clear (emit (nhlog_info ''initialize room list'') roster1))
   \<and> initialize [] roster1 \<noteq> Inl EndIteratorDeref"
proof -
  have fill: "initialize_fill [] roster1 =
      Inr (rooms_clear (emit (nhlog_info ''initialize room list'') roster1))"
    by (simp add: initialize_fill_def)
  have cleared: "rooms (rooms_clear (emit (nhlog_info ''initialize room list'') roster1)) = []"
    by (simp add: rooms_clear_def)
  from firstRoom_in_bounds_iff
         [of "rooms rosterNull" "''!x''" True rosterNull "[]" roster1
             "rooms_clear (emit (nhlog_info ''initialize room list'') roster1)"]
       firstRoom_in_bounds_iff [of "rooms roster3" "''!x''" True rosterNull "[]" roster1
             "rooms_clear (emit (nhlog_info ''initialize room list'') roster1)"]
       fill cleared
  show ?thesis
    by (simp add: rosterNull_def roster3_def rooms_erase_def)
qed

text \<open>
  C4, as the code has it. \<^verbatim>\<open>removeRoom\<close> never writes \<^verbatim>\<open>selectedRoom_\<close>: when
  the erase leaves the room map empty, it returns at once, the stored selected-room
  identifier is what it was before, and nothing is emitted.
\<close>

theorem removeRoom_last_keeps_selectedRoom:
  "rooms (rooms_erase room_id s) = [] \<longrightarrow>
     removeRoom room_id reset s = Inr (rooms_erase room_id s)
     \<and> selectedRoom (rooms_erase room_id s) = selectedRoom s
     \<and> effects (rooms_erase room_id s) = effects s"
  by (simp add: removeRoom_def rooms_erase_frame)

theorem removeRoom_last_keeps_selectedRoom_witness:
  "rooms (rooms_erase ''!a'' roster1) = []
   \<and> removeRoom ''!a'' True roster1 = Inr (rooms_erase ''!a'' roster1)
   \<and> selectedRoom (rooms_erase ''!a'' roster1) = ''!a''"
proof -
  have emptied: "rooms (rooms_erase ''!a'' roster1) = []"
    by (simp add: rooms_erase_def roster1_def)
  have "selectedRoom roster1 = ''!a''"
    by (simp add: roster1_def)
  with emptied removeRoom_last_keeps_selectedRoom [of "''!a''" roster1 True] show ?thesis
    by simp
qed

text \<open>
  The claim C4 fails on the roster that holds one room, which is the selected one:
  after the room is removed the room map is empty and the selected-room identifier is
  still the removed room's id, not the empty string.
\<close>

theorem removeRoom_last_not_cleared:
  "RoomList_inv roster1
   \<and> map_sum id (\<lambda>s'. (rooms s', selectedRoom s')) (removeRoom ''!a'' True roster1)
       = Inr ([], ''!a'')"
  by (simp add: removeRoom_def rooms_erase_def roster1_def RoomList_inv_def roomItem_def)

text \<open>
  C5, as the code has it. When \<^verbatim>\<open>removeRoom\<close> with \<^verbatim>\<open>reset\<close> leaves a room
  map with an item that is not null, the room it marks pressed and announces with
  \<^verbatim>\<open>roomChanged\<close> is the first entry of the room map with a non-null item, in the
  map's iteration order; the map being ordered by key, that is the room with the least id
  among the non-null ones. The order of the layout plays no part.
\<close>

theorem removeRoom_selects_first_in_map:
  "find (\<lambda>e. snd e \<noteq> None) (rooms (rooms_erase room_id s)) = Some (k, Some a) \<longrightarrow>
     removeRoom room_id True s
       = Inr (emit (roomChanged k) (setPressedState a True (rooms_erase room_id s)))
     \<and> (sorted_wrt (<) (map fst (rooms s)) \<longrightarrow>
          (\<forall>e \<in> set (rooms (rooms_erase room_id s)). snd e \<noteq> None \<longrightarrow> k \<le> fst e))"
proof (intro impI conjI ballI)
  assume found: "find (\<lambda>e. snd e \<noteq> None) (rooms (rooms_erase room_id s)) = Some (k, Some a)"
  then have first: "firstRoom (rooms (rooms_erase room_id s)) = Inr (k, Some a)"
    by (simp add: firstRoom_Inr_iff)
  then have "rooms (rooms_erase room_id s) \<noteq> []"
    by auto
  with first show "removeRoom room_id True s
       = Inr (emit (roomChanged k) (setPressedState a True (rooms_erase room_id s)))"
    by (simp add: removeRoom_def Let_def)
  fix e
  assume srt: "sorted_wrt (<) (map fst (rooms s))"
    and e: "e \<in> set (rooms (rooms_erase room_id s))" "snd e \<noteq> None"
  have "sorted_wrt (<) (map fst (rooms (rooms_erase room_id s)))"
    using srt by (simp add: rooms_erase_def sorted_wrt_map sorted_wrt_filter)
  with found e show "k \<le> fst e"
    using first_found_least [of "rooms (rooms_erase room_id s)" "\<lambda>e. snd e \<noteq> None" "(k, Some a)" e]
    by simp
qed

theorem removeRoom_selects_first_in_map_witness:
  "find (\<lambda>e. snd e \<noteq> None) (rooms (rooms_erase ''!c'' roster3)) = Some (''!a'', Some 1)
   \<and> removeRoom ''!c'' True roster3
       = Inr (emit (roomChanged ''!a'') (setPressedState 1 True (rooms_erase ''!c'' roster3)))
   \<and> sorted_wrt (<) (map fst (rooms roster3))
   \<and> map fst (rooms (rooms_erase ''!c'' roster3)) = [''!a'', ''!b'']
   \<and> ''!a'' \<le> ''!b''"
proof -
  have found: "find (\<lambda>e. snd e \<noteq> None) (rooms (rooms_erase ''!c'' roster3)) = Some (''!a'', Some 1)"
    by (simp add: rooms_erase_def roster3_def)
  have srt: "sorted_wrt (<) (map fst (rooms roster3))"
    by (simp add: roster3_def)
  have left: "map fst (rooms (rooms_erase ''!c'' roster3)) = [''!a'', ''!b'']"
    by (simp add: rooms_erase_def roster3_def)
  from found srt left removeRoom_selects_first_in_map [of "''!c''" roster3 "''!a''" 1] show ?thesis
    by simp
qed

text \<open>
  The claim C5 fails on the roster of three rooms: the layout shows !b (last message at
  200) before !a (at 100) before the invite !c, and it is in sorted order. Removing !c
  announces !a, the least id of the room map, while the first room in the sort order
  is !b.
\<close>

theorem removeRoom_selects_not_first_in_sort_order:
  "RoomList_inv roster3
   \<and> contentsLayout (sortRoomsByLastMessage roster3) = contentsLayout roster3
   \<and> map_sum id (\<lambda>s'. (effects s', isPressed (heap s' 1), isPressed (heap s' 2),
                           firstInLayout s', contentsLayout s',
                           contentsLayout (sortRoomsByLastMessage s') = contentsLayout s'))
         (removeRoom ''!c'' True roster3)
       = Inr ([roomChanged ''!a''], True, False, Some ''!b'', [RoomWidget 2, RoomWidget 1], True)"
  by (auto simp: removeRoom_def rooms_erase_def roster3_def dropDeleted_def emit_def
        setPressedState_def onItem_def firstInLayout_def RoomList_inv_def
        sortRoomsByLastMessage_def roomItem_def times_key_def message_def noMessage_def
        insertWidget_def removeWidget_def)

subsection \<open>Unread counts\<close>

lemma total_unread_msgs_sum:
  "total_unread_msgs rs h n = n + sum_list (map (\<lambda>b. unreadMessageCount (h b)) (owned rs))"
  by (induction rs h n rule: total_unread_msgs.induct) (simp_all add: add.assoc)

lemma word_sum_list_sint:
  "(word_of_int (sum_list (map sint ws)) :: 32 word) = sum_list ws"
  by (induction ws) simp_all

lemma total_unread_msgs_unreadTotal:
  "total_unread_msgs (rooms s) (heap s) 0 = word_of_int (unreadTotal s)"
  using word_sum_list_sint [of "map (\<lambda>b. unreadMessageCount (heap s b)) (owned (rooms s))"]
  by (simp add: total_unread_msgs_sum unreadTotal_def comp_def)

text \<open>
  C3. For an id that is not in the room map, \<^verbatim>\<open>updateUnreadMessageCount\<close> only logs
  a warning: the result is the state it was given plus the warning, so the roster is
  unchanged and no total is signalled. For an id whose entry holds an item, it sets that
  item's unread count to the given count, leaves every other item and the room map alone,
  and emits \<^verbatim>\<open>totalUnreadMessageCountUpdated\<close> with the sum of the unread counts over
  the rooms now in the map, computed in 32-bit arithmetic; whenever that sum fits an
  \<^verbatim>\<open>int\<close>, the emitted number is the sum itself.
\<close>

theorem updateUnreadMessageCount_spec:
  "(\<not> roomExists s roomid \<longrightarrow>
      updateUnreadMessageCount roomid count s =
        Inr (s\<lparr>effects := effects s @
               [nhlog_warn (''updateUnreadMessageCount: unknown room_id '' @ roomid)]\<rparr>))
   \<and> (map_of (rooms s) roomid = Some (Some a) \<longrightarrow>
        (\<exists>s'. updateUnreadMessageCount roomid count s = Inr s'
           \<and> rooms s' = rooms s
           \<and> heap s' = (heap s)(a := (heap s a)\<lparr>unreadMessageCount := count\<rparr>)
           \<and> effects s' = effects s @ [totalUnreadMessageCountUpdated (word_of_int (unreadTotal s'))]
           \<and> (- (2 ^ 31) \<le> unreadTotal s' \<and> unreadTotal s' < 2 ^ 31 \<longrightarrow>
                sint (word_of_int (unreadTotal s') :: 32 word) = unreadTotal s')))"
proof (intro conjI impI)
  assume "\<not> roomExists s roomid"
  then show "updateUnreadMessageCount roomid count s =
        Inr (s\<lparr>effects := effects s @
               [nhlog_warn (''updateUnreadMessageCount: unknown room_id '' @ roomid)]\<rparr>)"
    by (simp add: updateUnreadMessageCount_def emit_def)
next
  assume present: "map_of (rooms s) roomid = Some (Some a)"
  let ?s1 = "onItem a (\<lambda>w. w\<lparr>unreadMessageCount := count\<rparr>) s"
  let ?s' = "calculateUnreadMessageCount ?s1"
  have run: "updateUnreadMessageCount roomid count s = Inr ?s'"
    using present by (simp add: updateUnreadMessageCount_def roomExists_def)
  have frame: "rooms ?s' = rooms s"
    "heap ?s' = (heap s)(a := (heap s a)\<lparr>unreadMessageCount := count\<rparr>)"
    by (simp_all add: calculateUnreadMessageCount_def emit_def onItem_def)
  have same: "unreadTotal ?s' = unreadTotal ?s1"
    by (simp add: unreadTotal_def calculateUnreadMessageCount_def emit_def)
  have sig: "effects ?s' =
      effects s @ [totalUnreadMessageCountUpdated (word_of_int (unreadTotal ?s'))]"
    unfolding same
    by (simp add: calculateUnreadMessageCount_def emit_def total_unread_msgs_unreadTotal)
       (simp add: onItem_def)
  have range: "- (2 ^ 31) \<le> unreadTotal ?s' \<and> unreadTotal ?s' < 2 ^ 31 \<longrightarrow>
                sint (word_of_int (unreadTotal ?s') :: 32 word) = unreadTotal ?s'"
    by (simp add: sint_sbintrunc' signed_take_bit_int_eq_self)
  from run frame sig range
  show "\<exists>s'. updateUnreadMessageCount roomid count s = Inr s'
           \<and> rooms s' = rooms s
           \<and> heap s' = (heap s)(a := (heap s a)\<lparr>unreadMessageCount := count\<rparr>)
           \<and> effects s' = effects s @ [totalUnreadMessageCountUpdated (word_of_int (unreadTotal s'))]
           \<and> (- (2 ^ 31) \<le> unreadTotal s' \<and> unreadTotal s' < 2 ^ 31 \<longrightarrow>
                sint (word_of_int (unreadTotal s') :: 32 word) = unreadTotal s')"
    by blast
qed

theorem updateUnreadMessageCount_spec_witness:
  "\<not> roomExists roster3 ''!z''
   \<and> map_sum id effects (updateUnreadMessageCount ''!z'' 5 roster3)
       = Inr [nhlog_warn ''updateUnreadMessageCount: unknown room_id !z'']
   \<and> map_of (rooms roster3) ''!b'' = Some (Some 2)
   \<and> map_sum id effects (updateUnreadMessageCount ''!b'' 5 roster3)
       = Inr [totalUnreadMessageCountUpdated 5]"
proof -
  have absent: "\<not> roomExists roster3 ''!z''"
    by (simp add: roomExists_def roster3_def)
  have present: "map_of (rooms roster3) ''!b'' = Some (Some 2)"
    by (simp add: roster3_def)
  from updateUnreadMessageCount_spec [of roster3 "''!z''" 5 2] absent
  have warned: "map_sum id effects (updateUnreadMessageCount ''!z'' 5 roster3)
       = Inr [nhlog_warn ''updateUnreadMessageCount: unknown room_id !z'']"
    by (simp add: roster3_def)
  from updateUnreadMessageCount_spec [of roster3 "''!b''" 5 2] present
  obtain s' where s': "updateUnreadMessageCount ''!b'' 5 roster3 = Inr s'"
    "rooms s' = rooms roster3"
    "heap s' = (heap roster3)(2 := (heap roster3 2)\<lparr>unreadMessageCount := 5\<rparr>)"
    "effects s' = effects roster3 @ [totalUnreadMessageCountUpdated (word_of_int (unreadTotal s'))]"
    by blast
  have "unreadTotal s' = 5"
    by (simp add: unreadTotal_def s' roster3_def roomItem_def)
  with s' have "map_sum id effects (updateUnreadMessageCount ''!b'' 5 roster3)
       = Inr [totalUnreadMessageCountUpdated 5]"
    by (simp add: roster3_def)
  with absent present warned show ?thesis
    by simp
qed

subsection \<open>Invites\<close>

text \<open>
  C2. With a non-empty set of pending invites, \<^verbatim>\<open>cleanupInvites\<close> removes from the
  room map exactly the entries whose item is an invite and whose id is not a key of the
  set, and keeps every other entry, in order, with every item as it was; with an empty
  set it returns the state unchanged.
\<close>

theorem cleanupInvites_spec:
  "(invites = [] \<longrightarrow> cleanupInvites invites s = s)
   \<and> (invites \<noteq> [] \<longrightarrow>
        rooms (cleanupInvites invites s) =
          filter (\<lambda>(k, p). (case p of None \<Rightarrow> True
                             | Some a \<Rightarrow> \<not> (isInvite (heap s a) \<and> k \<notin> fst ` set invites)))
            (rooms s)
        \<and> heap (cleanupInvites invites s) = heap s
        \<and> selectedRoom (cleanupInvites invites s) = selectedRoom s
        \<and> effects (cleanupInvites invites s) = effects s)"
proof -
  have pred: "(\<lambda>e. \<not> (case e of (room_id, it) \<Rightarrow>
                  (case it of None \<Rightarrow> False
                   | Some a \<Rightarrow> isInvite (heap s a) \<and> map_of invites room_id = None)))
            = (\<lambda>(k, p). (case p of None \<Rightarrow> True
                            | Some a \<Rightarrow> \<not> (isInvite (heap s a) \<and> k \<notin> fst ` set invites)))"
    by (auto simp: fun_eq_iff map_of_eq_None_iff split: option.splits)
  show ?thesis
    by (simp add: cleanupInvites_def erase_if_def pred)
qed

theorem cleanupInvites_spec_witness:
  "cleanupInvites [] roster3 = roster3
   \<and> [(''!z'', True)] \<noteq> []
   \<and> rooms (cleanupInvites [(''!z'', True)] roster3) = [(''!a'', Some 1), (''!b'', Some 2)]
   \<and> rooms (cleanupInvites [(''!c'', False)] roster3) = rooms roster3"
  using cleanupInvites_spec [of "[]" roster3]
    cleanupInvites_spec [of "[(''!z'', True)]" roster3]
    cleanupInvites_spec [of "[(''!c'', False)]" roster3]
  by (simp add: roster3_def roomItem_def)

subsection \<open>Filtering\<close>

lemma showItems_apply:
  "showItems L h x = (if x \<in> set (roomWidgets L) then (h x)\<lparr>isVisible := True\<rparr> else h x)"
proof (induction L arbitrary: h)
  case Nil
  show ?case by simp
next
  case (Cons it L)
  show ?case
  proof (cases it)
    case (RoomWidget a)
    show ?thesis
      unfolding RoomWidget showItems.simps Cons.IH by simp
  next
    case OtherItem
    show ?thesis
      unfolding OtherItem showItems.simps Cons.IH by simp
  qed
qed

lemma showItems_eq:
  "showItems L h = (\<lambda>a. if a \<in> set (roomWidgets L) then (h a)\<lparr>isVisible := True\<rparr> else h a)"
  by (rule ext) (rule showItems_apply)

lemma owned_iff: "a \<in> set (owned rs) \<longleftrightarrow> (\<exists>k. (k, Some a) \<in> set rs)"
  by (induction rs rule: owned.induct) auto

lemma inv_owned:
  "RoomList_inv s \<Longrightarrow> (k, p) \<in> set (rooms s) \<Longrightarrow>
     \<exists>a. p = Some a \<and> a \<in> set (roomWidgets (contentsLayout s)) \<and> roomId (heap s a) = k"
  by (cases p) (auto simp: RoomList_inv_def list_all_iff owned_iff)

lemma inv_ids:
  "RoomList_inv s \<Longrightarrow> (k, Some a) \<in> set (rooms s) \<Longrightarrow> roomId (heap s a) = k"
  by (auto simp: RoomList_inv_def list_all_iff)

text \<open>
  C7. \<^verbatim>\<open>removeFilter\<close> changes nothing but the visibility of the room widgets in the
  layout, which it sets: the room map, the order of the layout, the selected room and
  what has been emitted are as before, every room widget of the layout is visible, and in
  a well-formed roster that is every room of the map.
\<close>

theorem removeFilter_frame:
  "removeFilter s =
     s\<lparr>heap := (\<lambda>a. if a \<in> set (roomWidgets (contentsLayout s))
                    then (heap s a)\<lparr>isVisible := True\<rparr> else heap s a)\<rparr>
   \<and> rooms (removeFilter s) = rooms s
   \<and> contentsLayout (removeFilter s) = contentsLayout s
   \<and> selectedRoom (removeFilter s) = selectedRoom s
   \<and> effects (removeFilter s) = effects s
   \<and> (\<forall>a \<in> set (roomWidgets (contentsLayout s)). isVisible (heap (removeFilter s) a))
   \<and> (RoomList_inv s \<longrightarrow>
        (\<forall>e \<in> set (rooms s). \<exists>a. snd e = Some a \<and> isVisible (heap (removeFilter s) a)))"
proof (intro conjI impI ballI)
  fix e
  assume "RoomList_inv s" and "e \<in> set (rooms s)"
  then show "\<exists>a. snd e = Some a \<and> isVisible (heap (removeFilter s) a)"
    using inv_owned [of s "fst e" "snd e"] by (auto simp: removeFilter_def showItems_eq)
qed (simp_all add: removeFilter_def showItems_eq)

theorem removeFilter_frame_witness:
  "RoomList_inv rosterHidden
   \<and> \<not> isVisible (heap rosterHidden 1)
   \<and> isVisible (heap (removeFilter rosterHidden) 1)
   \<and> isVisible (heap (removeFilter rosterHidden) 2)
   \<and> isVisible (heap (removeFilter rosterHidden) 3)
   \<and> rooms (removeFilter rosterHidden) = rooms rosterHidden
   \<and> contentsLayout (removeFilter rosterHidden) = [RoomWidget 2, RoomWidget 1, RoomWidget 3]
   \<and> selectedRoom (removeFilter rosterHidden) = ''!b''"
proof -
  have inv: "RoomList_inv rosterHidden"
    by (auto simp: RoomList_inv_def rosterHidden_def roster3_def roomItem_def)
  with removeFilter_frame [of rosterHidden] show ?thesis
    by (simp add: rosterHidden_def roster3_def roomItem_def)
qed

lemma filterItems_apply:
  "filterItems flt L h x =
     (if x \<in> set (roomWidgets L)
      then (h x)\<lparr>isVisible := (map_of flt (roomId (h x)) \<noteq> None)\<rparr> else h x)"
proof (induction L arbitrary: h)
  case Nil
  show ?case by simp
next
  case (Cons it L)
  show ?case
  proof (cases it)
    case (RoomWidget a)
    show ?thesis
      unfolding RoomWidget filterItems.simps Cons.IH by simp
  next
    case OtherItem
    show ?thesis
      unfolding OtherItem filterItems.simps Cons.IH by simp
  qed
qed

lemma selectFirstVisible_find:
  "selectFirstVisible L s =
     (case find (\<lambda>a. isVisible (heap s a)) (roomWidgets L) of
        None \<Rightarrow> s
      | Some a \<Rightarrow> highlightSelectedRoom (roomId (heap s a)) s)"
  by (induction L s rule: selectFirstVisible.induct) simp_all

lemma pressRooms_other:
  "a \<notin> set (owned rs) \<Longrightarrow> pressRooms room_id rs h a = h a"
  by (induction room_id rs h rule: pressRooms.induct) auto

lemma pressRooms_fields:
  "isVisible (pressRooms room_id rs h a) = isVisible (h a)"
  "roomId (pressRooms room_id rs h a) = roomId (h a)"
  by (induction room_id rs h rule: pressRooms.induct) auto

lemma pressRooms_pressed:
  "a \<in> set (owned rs) \<Longrightarrow> list_all (\<lambda>(k, p). case p of None \<Rightarrow> True | Some b \<Rightarrow> roomId (h b) = k) rs \<Longrightarrow>
     isPressed (pressRooms room_id rs h a) = (roomId (h a) = room_id)"
proof (induction room_id rs h rule: pressRooms.induct)
  case (1 room_id h)
  then show ?case by simp
next
  case (2 room_id k rest h)
  then show ?case by simp
next
  case (3 room_id k b rest h)
  let ?h = "if k \<noteq> room_id then h(b := (h b)\<lparr>isPressed := False\<rparr>)
            else h(b := (h b)\<lparr>isPressed := True\<rparr>)"
  have ids: "\<And>x. roomId (?h x) = roomId (h x)"
    by simp
  have rest: "list_all (\<lambda>(k, p). case p of None \<Rightarrow> True | Some b \<Rightarrow> roomId (?h b) = k) rest"
    using "3.prems"(2) unfolding ids by simp
  show ?case
  proof (cases "a \<in> set (owned rest)")
    case True
    from "3.IH" [OF True rest] show ?thesis
      unfolding ids by simp
  next
    case False
    with "3.prems"(1) have ab: "a = b" by simp
    from "3.prems"(2) have kb: "roomId (h b) = k" by simp
    from False have "pressRooms room_id rest ?h a = ?h a"
      by (rule pressRooms_other)
    then show ?thesis
      using ab kb by auto
  qed
qed

lemma inv_layout_room:
  "RoomList_inv s \<Longrightarrow> a \<in> set (roomWidgets (contentsLayout s)) \<Longrightarrow>
     (roomId (heap s a), Some a) \<in> set (rooms s)"
  by (auto simp: RoomList_inv_def list_all_iff owned_iff)

lemma find_cong_set:
  "(\<And>x. x \<in> set xs \<Longrightarrow> P x = Q x) \<Longrightarrow> find P xs = find Q xs"
  by (induction xs) auto

lemma find_Some_set: "find P xs = Some x \<Longrightarrow> x \<in> set xs \<and> P x"
  by (induction xs) (auto split: if_splits)

text \<open>
  C6. In a well-formed roster, after \<^verbatim>\<open>applyFilter\<close> a room is visible iff its id
  is a key of the filter, whatever the mapped boolean. If the selected room's id is a key
  of the filter, the selection, the pressed states and what has been emitted are as
  before. Otherwise the first room of the layout whose id is a key of the filter becomes
  the selected room: \<^verbatim>\<open>roomChanged\<close> is emitted for it and it is the one pressed
  room; when no room is visible, nothing is selected, emitted or pressed.
\<close>

theorem applyFilter_spec:
  assumes inv: "RoomList_inv s" and s': "s' = applyFilter flt s"
  shows "rooms s' = rooms s \<and> contentsLayout s' = contentsLayout s
   \<and> (\<forall>e \<in> set (rooms s). \<exists>a. snd e = Some a \<and> (isVisible (heap s' a) \<longleftrightarrow> fst e \<in> fst ` set flt))
   \<and> (selectedRoom s \<noteq> [] \<and> selectedRoom s \<in> fst ` set flt \<longrightarrow>
        selectedRoom s' = selectedRoom s \<and> effects s' = effects s
        \<and> (\<forall>a. isPressed (heap s' a) = isPressed (heap s a)))
   \<and> (\<not> (selectedRoom s \<noteq> [] \<and> selectedRoom s \<in> fst ` set flt) \<longrightarrow>
        (case find (\<lambda>a. roomId (heap s a) \<in> fst ` set flt) (roomWidgets (contentsLayout s)) of
           None \<Rightarrow> selectedRoom s' = selectedRoom s \<and> effects s' = effects s
                   \<and> (\<forall>a. isPressed (heap s' a) = isPressed (heap s a))
         | Some a \<Rightarrow> selectedRoom s' = roomId (heap s a)
                   \<and> effects s' = effects s @ [roomChanged (roomId (heap s a))]
                   \<and> (\<forall>e \<in> set (rooms s). \<exists>b. snd e = Some b
                          \<and> (isPressed (heap s' b) \<longleftrightarrow> fst e = roomId (heap s a)))))"
proof -
  let ?keys = "fst ` set flt"
  let ?L = "contentsLayout s"
  let ?H = "filterItems flt ?L (heap s)"
  let ?s1 = "s\<lparr>heap := ?H\<rparr>"
  have H: "\<And>x. ?H x = (if x \<in> set (roomWidgets ?L)
      then (heap s x)\<lparr>isVisible := (roomId (heap s x) \<in> ?keys)\<rparr> else heap s x)"
    by (simp add: filterItems_apply map_of_eq_None_iff)
  have Hid: "\<And>x. roomId (?H x) = roomId (heap s x)"
    by (simp add: H)
  have Hpr: "\<And>x. isPressed (?H x) = isPressed (heap s x)"
    by (simp add: H)
  have Hvis: "\<And>x. x \<in> set (roomWidgets ?L) \<Longrightarrow> isVisible (?H x) = (roomId (heap s x) \<in> ?keys)"
    by (simp add: H)
  have findeq: "find (\<lambda>a. isVisible (heap ?s1 a)) (roomWidgets (contentsLayout ?s1))
      = find (\<lambda>a. roomId (heap s a) \<in> ?keys) (roomWidgets ?L)"
    using find_cong_set [of "roomWidgets ?L" "\<lambda>a. isVisible (?H a)"
        "\<lambda>a. roomId (heap s a) \<in> ?keys"] Hvis
    by simp
  have entries: "\<And>e. e \<in> set (rooms s) \<Longrightarrow>
      \<exists>a. snd e = Some a \<and> a \<in> set (roomWidgets ?L) \<and> roomId (heap s a) = fst e"
    using inv_owned [OF inv] by (metis prod.collapse)
  have allH: "list_all (\<lambda>(k, p). case p of None \<Rightarrow> True | Some b \<Rightarrow> roomId (?H b) = k) (rooms s)"
    using inv_ids [OF inv] by (auto simp: list_all_iff Hid split: option.splits)
  show ?thesis
  proof (cases "selectedRoom s \<noteq> [] \<and> selectedRoom s \<in> ?keys")
    case True
    then have eq: "s' = ?s1"
      unfolding s' by (simp add: applyFilter_def Let_def map_of_eq_None_iff)
    show ?thesis
      using True entries unfolding eq by (simp add: Hpr) (metis Hvis)
  next
    case False
    then have eq: "s' = selectFirstVisibleRoom ?s1"
      unfolding s' by (auto simp: applyFilter_def Let_def map_of_eq_None_iff)
    show ?thesis
    proof (cases "find (\<lambda>a. roomId (heap s a) \<in> ?keys) (roomWidgets ?L)")
      case None
      then have eq': "s' = ?s1"
        unfolding eq selectFirstVisibleRoom_def selectFirstVisible_find findeq by simp
      show ?thesis
        using False None entries unfolding eq' by (simp add: Hpr) (metis Hvis)
    next
      case (Some a)
      from find_Some_set [OF Some] have a: "a \<in> set (roomWidgets ?L)" ..
      let ?id = "roomId (heap s a)"
      from inv_layout_room [OF inv a] have ex: "roomExists (emit (roomChanged ?id) ?s1) ?id"
        by (auto simp: roomExists_def emit_def weak_map_of_SomeI)
      have eq': "s' = highlightSelectedRoom ?id ?s1"
        unfolding eq selectFirstVisibleRoom_def selectFirstVisible_find findeq Some
        by (simp add: Hid)
      have heap': "heap s' = pressRooms ?id (rooms s) ?H"
        and sel: "selectedRoom s' = ?id"
        and eff: "effects s' = effects s @ [roomChanged ?id]"
        and frame: "rooms s' = rooms s" "contentsLayout s' = contentsLayout s"
        using ex unfolding eq' highlightSelectedRoom_def Let_def by (simp_all add: emit_def)
      have vis: "\<forall>e \<in> set (rooms s). \<exists>a. snd e = Some a \<and> (isVisible (heap s' a) \<longleftrightarrow> fst e \<in> ?keys)"
        using entries unfolding heap' pressRooms_fields by (metis Hvis)
      have pressed: "\<forall>e \<in> set (rooms s). \<exists>b. snd e = Some b \<and> (isPressed (heap s' b) \<longleftrightarrow> fst e = ?id)"
      proof
        fix e
        assume e: "e \<in> set (rooms s)"
        from entries [OF e] obtain b where b: "snd e = Some b" "roomId (heap s b) = fst e"
          by blast
        with e have "(fst e, Some b) \<in> set (rooms s)"
          by (metis prod.collapse)
        then have "b \<in> set (owned (rooms s))"
          by (auto simp: owned_iff)
        from pressRooms_pressed [OF this allH, of ?id] b
        show "\<exists>b. snd e = Some b \<and> (isPressed (heap s' b) \<longleftrightarrow> fst e = ?id)"
          unfolding heap' by (simp add: Hid)
      qed
      show ?thesis
        using False Some sel eff frame vis pressed by simp
    qed
  qed
qed

theorem applyFilter_spec_witness:
  "RoomList_inv roster3
   \<and> selectedRoom (applyFilter [(''!a'', True), (''!c'', False)] roster3) = ''!a''
   \<and> effects (applyFilter [(''!a'', True), (''!c'', False)] roster3) = [roomChanged ''!a'']
   \<and> isVisible (heap (applyFilter [(''!a'', True), (''!c'', False)] roster3) 1)
   \<and> \<not> isVisible (heap (applyFilter [(''!a'', True), (''!c'', False)] roster3) 2)
   \<and> isVisible (heap (applyFilter [(''!a'', True), (''!c'', False)] roster3) 3)
   \<and> selectedRoom (applyFilter [(''!b'', False)] roster3) = ''!b''
   \<and> effects (applyFilter [(''!b'', False)] roster3) = []
   \<and> selectedRoom (applyFilter [(''!z'', True)] roster3) = ''!b''
   \<and> effects (applyFilter [(''!z'', True)] roster3) = []"
proof -
  have inv: "RoomList_inv roster3"
    by (auto simp: RoomList_inv_def roster3_def roomItem_def)
  from applyFilter_spec [OF inv refl, of "[(''!a'', True), (''!c'', False)]"]
    applyFilter_spec [OF inv refl, of "[(''!b'', False)]"]
    applyFilter_spec [OF inv refl, of "[(''!z'', True)]"]
    inv
  show ?thesis
    by (simp add: roster3_def roomItem_def)
qed

subsection \<open>Sorting by last message\<close>

lemma emplace_set: "set (multimap_emplace k v ts) = insert (k, v) (set ts)"
  by (induction k v ts rule: multimap_emplace.induct) auto

lemma emplace_length: "length (multimap_emplace k v ts) = Suc (length ts)"
  by (induction k v ts rule: multimap_emplace.induct) auto

lemma emplace_sorted:
  "sorted_wrt (\<lambda>x y. fst y \<le> fst x) ts \<Longrightarrow>
     sorted_wrt (\<lambda>x y. fst y \<le> fst x) (multimap_emplace k v ts)"
  by (induction k v ts rule: multimap_emplace.induct) (auto simp: emplace_set)

lemma emplace_filter:
  "sorted_wrt (\<lambda>x y. fst y \<le> fst x) ts \<Longrightarrow>
     filter (\<lambda>x. fst x = c) (multimap_emplace k v ts)
       = filter (\<lambda>x. fst x = c) ts @ (if k = c then [(k, v)] else [])"
proof (induction ts)
  case Nil
  show ?case by simp
next
  case (Cons e ts)
  obtain k' v' where e: "e = (k', v')" by (cases e)
  show ?case
  proof (cases "k' < k")
    case True
    with Cons.prems e have "\<forall>x \<in> set (e # ts). fst x < k"
      by auto
    then have "filter (\<lambda>x. fst x = k) (e # ts) = []"
      by (auto simp: filter_empty_conv)
    with True e show ?thesis by auto
  next
    case False
    with Cons e show ?thesis by auto
  qed
qed

lemma collect_times_sorted:
  "sorted_wrt (\<lambda>x y. fst y \<le> fst x) ts \<Longrightarrow>
     sorted_wrt (\<lambda>x y. fst y \<le> fst x) (collect_times h L ts)"
  by (induction h L ts rule: collect_times.induct) (simp_all add: emplace_sorted)

lemma collect_times_filter:
  "sorted_wrt (\<lambda>x y. fst y \<le> fst x) ts \<Longrightarrow>
     filter (\<lambda>x. fst x = c) (collect_times h L ts)
       = filter (\<lambda>x. fst x = c) ts
         @ map (\<lambda>a. (times_key (h a), a)) (filter (\<lambda>a. times_key (h a) = c) (roomWidgets L))"
  by (induction h L ts rule: collect_times.induct) (simp_all add: emplace_sorted emplace_filter)

lemma collect_times_set:
  "set (collect_times h L ts) = set ts \<union> (\<lambda>a. (times_key (h a), a)) ` set (roomWidgets L)"
  by (induction h L ts rule: collect_times.induct) (auto simp: emplace_set)

lemma collect_times_length:
  "length (collect_times h L ts) = length ts + length (roomWidgets L)"
  by (induction h L ts rule: collect_times.induct) (simp_all add: emplace_length)

lemma roomWidgets_append: "roomWidgets (A @ B) = roomWidgets A @ roomWidgets B"
  by (induction A rule: roomWidgets.induct) simp_all

lemma roomWidgets_iff: "a \<in> set (roomWidgets L) \<longleftrightarrow> RoomWidget a \<in> set L"
  by (induction L rule: roomWidgets.induct) auto

lemma roomWidgets_map: "roomWidgets (map RoomWidget xs) = xs"
  by (induction xs) simp_all

lemma roomWidgets_map_comp: "roomWidgets (map (RoomWidget \<circ> f) xs) = map f xs"
  by (induction xs) simp_all

lemma roomWidgets_otherItems: "roomWidgets (otherItems L) = []"
  by (induction L rule: otherItems.induct) simp_all

lemma otherItems_append: "otherItems (A @ B) = otherItems A @ otherItems B"
  by (induction A rule: otherItems.induct) simp_all

lemma otherItems_map: "otherItems (map RoomWidget xs) = []"
  by (induction xs) simp_all

lemma otherItems_map_comp: "otherItems (map (RoomWidget \<circ> f) xs) = []"
  by (induction xs) simp_all

lemma otherItems_idem: "otherItems (otherItems L) = otherItems L"
  by (induction L rule: otherItems.induct) simp_all

lemma dropDeleted_all:
  "set (roomWidgets L) \<subseteq> set gone \<Longrightarrow> dropDeleted gone L = otherItems L"
  by (induction L rule: roomWidgets.induct) (auto simp: dropDeleted_def)

lemma filter_neq_absent: "x \<notin> set xs \<Longrightarrow> filter (\<lambda>y. y \<noteq> x) xs = xs"
  by (induction xs) auto

lemma dropDeleted_Nil: "dropDeleted [] R = R"
  by (induction R) (auto simp: dropDeleted_def split: layout_item.splits)

lemma remove1_RoomWidget:
  "distinct (roomWidgets R) \<Longrightarrow>
     remove1 (RoomWidget w) R = filter (\<lambda>it. it \<noteq> RoomWidget w) R"
proof (induction R rule: roomWidgets.induct)
  case (3 a rest)
  then have "a = w \<Longrightarrow> RoomWidget w \<notin> set rest"
    by (simp add: roomWidgets_iff)
  with 3 show ?case
    by (auto simp: filter_neq_absent)
qed simp_all

lemma dropDeleted_Cons:
  "distinct (roomWidgets R) \<Longrightarrow>
     dropDeleted (w # ws) R = dropDeleted ws (remove1 (RoomWidget w) R)"
  by (auto simp: remove1_RoomWidget dropDeleted_def intro!: filter_cong split: layout_item.splits)

lemma roomWidgets_remove1:
  "roomWidgets (remove1 (RoomWidget w) R) = remove1 w (roomWidgets R)"
  by (induction R rule: roomWidgets.induct) auto

lemma indexOf_ge: "- 1 \<le> indexOf w R"
  by (induction R) (auto simp: Let_def)

lemma indexOf_member: "RoomWidget w \<in> set R \<Longrightarrow> 0 \<le> indexOf w R"
  by (induction R) (auto simp: Let_def)

lemma indexOf_zero: "indexOf w R = 0 \<Longrightarrow> \<exists>R'. R = RoomWidget w # R'"
  using indexOf_ge [of w "tl R"]
  by (cases R) (auto simp: Let_def split: if_splits)

lemma indexOf_append:
  "RoomWidget w \<notin> set P \<Longrightarrow> RoomWidget w \<in> set R \<Longrightarrow>
     indexOf w (P @ R) = int (length P) + indexOf w R"
  using indexOf_member [of w R]
  by (induction P) (auto simp: Let_def)

lemma reposition_step:
  assumes "RoomWidget w \<notin> set P" and "RoomWidget w \<in> set R"
  shows "(if indexOf w (P @ R) = int (length P) then P @ R
          else insertWidget (int (length P)) w (removeWidget w (P @ R)))
         = P @ RoomWidget w # remove1 (RoomWidget w) R"
proof (cases "indexOf w R = 0")
  case True
  then obtain R' where "R = RoomWidget w # R'"
    using indexOf_zero by blast
  with assms True show ?thesis
    by (simp add: indexOf_append)
next
  case False
  with assms show ?thesis
    by (simp add: indexOf_append insertWidget_def removeWidget_def remove1_append)
qed

lemma reposition_eq:
  "distinct (map snd tms) \<Longrightarrow> set (map snd tms) \<subseteq> set (roomWidgets R) \<Longrightarrow>
   distinct (roomWidgets R) \<Longrightarrow> set (map snd tms) \<inter> set (roomWidgets P) = {} \<Longrightarrow>
     reposition (length P) tms (P @ R)
       = P @ map RoomWidget (map snd tms) @ dropDeleted (map snd tms) R"
proof (induction tms arbitrary: P R)
  case Nil
  show ?case by (simp add: dropDeleted_Nil)
next
  case (Cons e tms)
  obtain k w where e: "e = (k, w)" by (cases e)
  let ?P = "P @ [RoomWidget w]"
  let ?R = "remove1 (RoomWidget w) R"
  from Cons.prems e have wP: "RoomWidget w \<notin> set P" and wR: "RoomWidget w \<in> set R"
    by (auto simp: roomWidgets_iff)
  have step: "reposition (length P) (e # tms) (P @ R) = reposition (length ?P) tms (?P @ ?R)"
    unfolding e reposition.simps reposition_step [OF wP wR] by simp
  have d: "distinct (map snd tms)"
    using Cons.prems by simp
  have sub: "set (map snd tms) \<subseteq> set (roomWidgets ?R)"
    using Cons.prems e by (auto simp: roomWidgets_remove1)
  have dR: "distinct (roomWidgets ?R)"
    using Cons.prems by (simp add: roomWidgets_remove1)
  have dis: "set (map snd tms) \<inter> set (roomWidgets ?P) = {}"
    using Cons.prems e by (auto simp: roomWidgets_append)
  from Cons.IH [OF d sub dR dis] Cons.prems(3) show ?case
    unfolding step by (simp add: e dropDeleted_Cons)
qed

lemma collect_times_widgets:
  fixes h L
  defines "tms \<equiv> collect_times h L []"
  shows "set (map snd tms) = set (roomWidgets L)"
    and "length (map snd tms) = length (roomWidgets L)"
    and "\<forall>x \<in> set tms. fst x = times_key (h (snd x))"
    and "sorted_wrt (\<lambda>a b. times_key (h b) \<le> times_key (h a)) (map snd tms)"
    and "filter (\<lambda>a. times_key (h a) = c) (map snd tms)
           = filter (\<lambda>a. times_key (h a) = c) (roomWidgets L)"
proof -
  have set_tms: "set tms = (\<lambda>a. (times_key (h a), a)) ` set (roomWidgets L)"
    unfolding tms_def by (simp add: collect_times_set)
  then show "set (map snd tms) = set (roomWidgets L)"
    by (simp add: image_image)
  show "length (map snd tms) = length (roomWidgets L)"
    unfolding tms_def by (simp add: collect_times_length)
  from set_tms show keys: "\<forall>x \<in> set tms. fst x = times_key (h (snd x))"
    by auto
  have "sorted_wrt (\<lambda>x y. fst y \<le> fst x) tms"
    unfolding tms_def by (rule collect_times_sorted) simp
  then have "sorted_wrt (\<lambda>x y. times_key (h (snd y)) \<le> times_key (h (snd x))) tms"
  proof (rule sorted_wrt_mono_rel [rotated])
    fix x y
    assume "x \<in> set tms" and "y \<in> set tms" and "fst y \<le> fst x"
    with keys show "times_key (h (snd y)) \<le> times_key (h (snd x))"
      by simp
  qed
  then show "sorted_wrt (\<lambda>a b. times_key (h b) \<le> times_key (h a)) (map snd tms)"
    by (simp add: sorted_wrt_map)
  have "filter (\<lambda>x. times_key (h (snd x)) = c) tms = filter (\<lambda>x. fst x = c) tms"
    by (rule filter_cong [OF refl]) (use keys in auto)
  also have "\<dots> = map (\<lambda>a. (times_key (h a), a))
                     (filter (\<lambda>a. times_key (h a) = c) (roomWidgets L))"
    unfolding tms_def using collect_times_filter [of "[]" c h L] by simp
  finally show "filter (\<lambda>a. times_key (h a) = c) (map snd tms)
           = filter (\<lambda>a. times_key (h a) = c) (roomWidgets L)"
    by (simp add: filter_map comp_def)
qed

lemma sortRoomsByLastMessage_layout:
  assumes "distinct (roomWidgets (contentsLayout s))"
  shows "contentsLayout (sortRoomsByLastMessage s)
           = map RoomWidget (map snd (collect_times (heap s) (contentsLayout s) []))
             @ otherItems (contentsLayout s)"
proof -
  let ?L = "contentsLayout s"
  let ?tms = "collect_times (heap s) ?L []"
  note w = collect_times_widgets [where h = "heap s" and L = ?L]
  have "card (set (map snd ?tms)) = length (map snd ?tms)"
    using assms w(1) w(2) by (simp add: distinct_card)
  then have d: "distinct (map snd ?tms)"
    by (rule card_distinct)
  have "reposition (length ([] :: layout_item list)) ?tms ([] @ ?L)
          = [] @ map RoomWidget (map snd ?tms) @ dropDeleted (map snd ?tms) ?L"
    using d w(1) assms by (intro reposition_eq) simp_all
  moreover have "dropDeleted (map snd ?tms) ?L = otherItems ?L"
    using w(1) by (intro dropDeleted_all) simp
  ultimately show ?thesis
    by (simp add: sortRoomsByLastMessage_def)
qed

text \<open>
  C1, as the code has it. In a layout whose room widgets are distinct,
  \<^verbatim>\<open>sortRoomsByLastMessage\<close> puts the room widgets in front, in descending order of
  their key, followed by the items that are not rooms. The key of a room without a
  message is 0, and that of any other room is the timestamp of its last message read as
  an unsigned 64-bit number. The rooms are the same as before, each once, and the rooms
  of any one key are in the order they had before the sort. So a room without a message
  comes after every room whose key is not 0; with a room whose message is dated 0 it
  ties. Nothing else changes, except that no sort is pending any more.
\<close>

theorem sortRoomsByLastMessage_sorts:
  assumes "distinct (roomWidgets (contentsLayout s))"
    and "s' = sortRoomsByLastMessage s"
    and "before = roomWidgets (contentsLayout s)"
    and "after = roomWidgets (contentsLayout s')"
  shows "contentsLayout s' = map RoomWidget after @ otherItems (contentsLayout s)
    \<and> sorted_wrt (\<lambda>a b. times_key (heap s b) \<le> times_key (heap s a)) after
    \<and> (\<forall>a. userid (lastMessageInfo (heap s a)) = [] \<longrightarrow> times_key (heap s a) = 0)
    \<and> (\<forall>c. filter (\<lambda>a. times_key (heap s a) = c) after
              = filter (\<lambda>a. times_key (heap s a) = c) before)
    \<and> set after = set before \<and> distinct after \<and> length after = length before
    \<and> (\<forall>i j. i < length after \<and> j < length after
              \<and> userid (lastMessageInfo (heap s (after ! i))) = []
              \<and> times_key (heap s (after ! j)) \<noteq> 0 \<longrightarrow> j < i)
    \<and> heap s' = heap s \<and> rooms s' = rooms s \<and> selectedRoom s' = selectedRoom s
    \<and> \<not> isSortPending s' \<and> effects s' = effects s"
proof -
  let ?L = "contentsLayout s"
  let ?tms = "collect_times (heap s) ?L []"
  let ?key = "\<lambda>a. times_key (heap s a)"
  note w = collect_times_widgets [where h = "heap s" and L = ?L]
  have layout: "contentsLayout s' = map RoomWidget (map snd ?tms) @ otherItems ?L"
    unfolding assms(2) by (rule sortRoomsByLastMessage_layout) (rule assms(1))
  then have after: "after = map snd ?tms"
    unfolding assms(4)
    by (simp add: roomWidgets_append roomWidgets_map_comp roomWidgets_otherItems)
  have srt: "sorted_wrt (\<lambda>a b. ?key b \<le> ?key a) after"
    unfolding after by (rule w(4))
  have stable: "\<forall>c. filter (\<lambda>a. ?key a = c) after = filter (\<lambda>a. ?key a = c) before"
    unfolding after assms(3) using w(5) by blast
  have perm: "set after = set before" "length after = length before"
    unfolding after assms(3) using w(1) w(2) by simp_all
  have "card (set after) = length after"
    using perm assms(1) unfolding assms(3) by (simp add: distinct_card)
  then have dist: "distinct after"
    by (rule card_distinct)
  have last: "\<forall>i j. i < length after \<and> j < length after
              \<and> userid (lastMessageInfo (heap s (after ! i))) = []
              \<and> ?key (after ! j) \<noteq> 0 \<longrightarrow> j < i"
  proof (intro allI impI, elim conjE)
    fix i j
    assume i: "i < length after" and j: "j < length after"
      and none: "userid (lastMessageInfo (heap s (after ! i))) = []"
      and some: "?key (after ! j) \<noteq> 0"
    from none have zero: "?key (after ! i) = 0"
      by (simp add: times_key_def)
    show "j < i"
    proof (rule ccontr)
      assume "\<not> j < i"
      with zero some have "i < j"
        by (cases "i = j") auto
      with srt j have "?key (after ! j) \<le> ?key (after ! i)"
        by (simp add: sorted_wrt_iff_nth_less)
      with zero some show False
        by simp
    qed
  qed
  have frame: "heap s' = heap s \<and> rooms s' = rooms s \<and> selectedRoom s' = selectedRoom s
    \<and> \<not> isSortPending s' \<and> effects s' = effects s"
    unfolding assms(2) by (simp add: sortRoomsByLastMessage_def Let_def)
  have layout': "contentsLayout s' = map RoomWidget after @ otherItems ?L"
    unfolding after by (rule layout)
  have zero: "\<forall>a. userid (lastMessageInfo (heap s a)) = [] \<longrightarrow> ?key a = 0"
    by (simp add: times_key_def)
  from layout' srt zero stable perm dist last frame show ?thesis
    by (intro conjI) blast+
qed

theorem sortRoomsByLastMessage_sorts_witness:
  "distinct (roomWidgets (contentsLayout rosterUnsorted))
   \<and> contentsLayout (sortRoomsByLastMessage rosterUnsorted)
       = [RoomWidget 2, RoomWidget 1, RoomWidget 5, RoomWidget 3, RoomWidget 4, OtherItem]
   \<and> sorted_wrt (\<lambda>a b. times_key (heap rosterUnsorted b) \<le> times_key (heap rosterUnsorted a))
         [2, 1, 5, 3, 4]
   \<and> \<not> isSortPending (sortRoomsByLastMessage rosterUnsorted)"
proof -
  have d: "distinct (roomWidgets (contentsLayout rosterUnsorted))"
    by (simp add: rosterUnsorted_def)
  have ws: "roomWidgets (contentsLayout (sortRoomsByLastMessage rosterUnsorted)) = [2, 1, 5, 3, 4]"
    by (simp add: rosterUnsorted_def sortRoomsByLastMessage_def roomItem_def times_key_def
          message_def noMessage_def insertWidget_def removeWidget_def)
  have others: "otherItems (contentsLayout rosterUnsorted) = [OtherItem]"
    by (simp add: rosterUnsorted_def)
  note sorts = sortRoomsByLastMessage_sorts [OF d refl refl refl]
  from sorts have "contentsLayout (sortRoomsByLastMessage rosterUnsorted)
       = [RoomWidget 2, RoomWidget 1, RoomWidget 5, RoomWidget 3, RoomWidget 4, OtherItem]"
    unfolding ws others by simp
  moreover from sorts
  have "sorted_wrt (\<lambda>a b. times_key (heap rosterUnsorted b) \<le> times_key (heap rosterUnsorted a))
         [2, 1, 5, 3, 4]"
    unfolding ws by blast
  moreover from sorts have "\<not> isSortPending (sortRoomsByLastMessage rosterUnsorted)"
    by blast
  ultimately show ?thesis
    using d by blast
qed

text \<open>
  The claim C1 fails on a roster of four rooms shown in the order !a (no message), !b
  (a message dated 0), !c (a message dated 100), !d (a message dated one millisecond
  before the epoch, the signed timestamp -1). After the sort !a, which has no message,
  is still in front of !b, which has one; and !d, whose timestamp is the least, comes
  first, in front of !c.
\<close>

theorem sortRoomsByLastMessage_activity_not_first:
  "distinct (roomWidgets (contentsLayout rosterEpoch))
   \<and> userid (lastMessageInfo (heap rosterEpoch 1)) = []
   \<and> userid (lastMessageInfo (heap rosterEpoch 2)) = ''@u:example.org''
   \<and> sint (datetime (lastMessageInfo (heap rosterEpoch 2))) = 0
   \<and> sint (datetime (lastMessageInfo (heap rosterEpoch 3))) = 100
   \<and> sint (datetime (lastMessageInfo (heap rosterEpoch 4))) = - 1
   \<and> contentsLayout rosterEpoch = [RoomWidget 1, RoomWidget 2, RoomWidget 3, RoomWidget 4]
   \<and> contentsLayout (sortRoomsByLastMessage rosterEpoch)
       = [RoomWidget 4, RoomWidget 3, RoomWidget 1, RoomWidget 2]"
  by (simp add: rosterEpoch_def sortRoomsByLastMessage_def roomItem_def times_key_def
        message_def noMessage_def insertWidget_def removeWidget_def)

lemma emplace_at_end:
  "\<forall>x \<in> set ts. k \<le> fst x \<Longrightarrow> multimap_emplace k v ts = ts @ [(k, v)]"
  by (induction k v ts rule: multimap_emplace.induct) auto

lemma collect_times_sorted_input:
  "sorted_wrt (\<lambda>x y. fst y \<le> fst x) (ts @ map (\<lambda>a. (times_key (h a), a)) (roomWidgets L)) \<Longrightarrow>
     collect_times h L ts = ts @ map (\<lambda>a. (times_key (h a), a)) (roomWidgets L)"
proof (induction h L ts rule: collect_times.induct)
  case (3 h a rest tms)
  from "3.prems" have "\<forall>x \<in> set tms. times_key (h a) \<le> fst x"
    by (auto simp: sorted_wrt_append)
  then have e: "multimap_emplace (times_key (h a)) a tms = tms @ [(times_key (h a), a)]"
    by (rule emplace_at_end)
  from "3.prems" "3.IH" show ?case
    by (simp add: e)
qed simp_all

lemma collect_times_sorted_widgets:
  assumes "sorted_wrt (\<lambda>a b. times_key (h b) \<le> times_key (h a)) (roomWidgets L)"
  shows "map snd (collect_times h L []) = roomWidgets L"
proof -
  from assms have "sorted_wrt (\<lambda>x y. fst y \<le> fst x)
      ([] @ map (\<lambda>a. (times_key (h a), a)) (roomWidgets L))"
    by (simp add: sorted_wrt_map)
  from collect_times_sorted_input [OF this] show ?thesis
    by (simp add: comp_def)
qed

lemma sorted_layout_widgets:
  assumes "distinct (roomWidgets (contentsLayout s))"
  shows "roomWidgets (contentsLayout (sortRoomsByLastMessage s))
           = map snd (collect_times (heap s) (contentsLayout s) [])"
    and "distinct (roomWidgets (contentsLayout (sortRoomsByLastMessage s)))"
    and "otherItems (contentsLayout (sortRoomsByLastMessage s)) = otherItems (contentsLayout s)"
proof -
  note w = collect_times_widgets [where h = "heap s" and L = "contentsLayout s"]
  show a: "roomWidgets (contentsLayout (sortRoomsByLastMessage s))
           = map snd (collect_times (heap s) (contentsLayout s) [])"
    by (simp add: sortRoomsByLastMessage_layout [OF assms] roomWidgets_append
          roomWidgets_map_comp roomWidgets_otherItems)
  have "card (set (map snd (collect_times (heap s) (contentsLayout s) [])))
      = length (map snd (collect_times (heap s) (contentsLayout s) []))"
    using assms w(1) w(2) by (simp add: distinct_card)
  then show "distinct (roomWidgets (contentsLayout (sortRoomsByLastMessage s)))"
    unfolding a by (rule card_distinct)
  show "otherItems (contentsLayout (sortRoomsByLastMessage s)) = otherItems (contentsLayout s)"
    by (simp add: sortRoomsByLastMessage_layout [OF assms] otherItems_append
          otherItems_map_comp otherItems_idem)
qed

lemma sort_frame:
  "heap (sortRoomsByLastMessage s) = heap s"
  "timers (sortRoomsByLastMessage s) = timers s"
  "\<not> isSortPending (sortRoomsByLastMessage s)"
  by (simp_all add: sortRoomsByLastMessage_def Let_def)

lemma sort_layout_cong:
  "heap s = heap t \<Longrightarrow> contentsLayout s = contentsLayout t \<Longrightarrow>
     contentsLayout (sortRoomsByLastMessage s) = contentsLayout (sortRoomsByLastMessage t)"
  by (simp add: sortRoomsByLastMessage_def Let_def)

lemma sort_idem:
  assumes "distinct (roomWidgets (contentsLayout s))"
  shows "contentsLayout (sortRoomsByLastMessage (sortRoomsByLastMessage s))
           = contentsLayout (sortRoomsByLastMessage s)"
proof -
  let ?t = "sortRoomsByLastMessage s"
  note w = collect_times_widgets [where h = "heap s" and L = "contentsLayout s"]
  note sl = sorted_layout_widgets [OF assms]
  have "sorted_wrt (\<lambda>a b. times_key (heap ?t b) \<le> times_key (heap ?t a))
          (roomWidgets (contentsLayout ?t))"
    unfolding sl(1) sort_frame by (rule w(4))
  from collect_times_sorted_widgets [OF this]
  have "map snd (collect_times (heap ?t) (contentsLayout ?t) []) = roomWidgets (contentsLayout ?t)" .
  with sortRoomsByLastMessage_layout [OF sl(2)]
  have "contentsLayout (sortRoomsByLastMessage ?t)
      = map RoomWidget (roomWidgets (contentsLayout ?t)) @ otherItems (contentsLayout ?t)"
    by simp
  also have "\<dots> = contentsLayout ?t"
    unfolding sl(3) sl(1) by (simp add: sortRoomsByLastMessage_layout [OF assms])
  finally show ?thesis .
qed

lemma calm_sort:
  "distinct (roomWidgets (contentsLayout s)) \<Longrightarrow> calm (sortRoomsByLastMessage s)"
  by (simp add: calm_def sorted_layout_widgets(2) sort_idem)

lemma calm_deliver:
  assumes "calm s" and "deliver e s = Inr s1"
  shows "calm s1"
proof (cases e)
  case LeaveEvent
  with assms show ?thesis
    by (auto simp: calm_def leaveEvent_def sortRoomsByLastMessage_def Let_def split: if_splits)
next
  case (Hover b)
  with assms show ?thesis
    by (auto simp: calm_def sortRoomsByLastMessage_def Let_def)
next
  case (DescriptionUpdate roomid info)
  show ?thesis
  proof (cases "roomExists s roomid")
    case False
    with assms DescriptionUpdate show ?thesis
      by (auto simp: calm_def updateRoomDescription_def emit_def sortRoomsByLastMessage_def Let_def)
  next
    case True
    with assms(2) DescriptionUpdate obtain a where a: "map_of (rooms s) roomid = Some (Some a)"
      by (auto simp: updateRoomDescription_def split: option.splits)
    let ?s1 = "onItem a (\<lambda>w. w\<lparr>lastMessageInfo := info\<rparr>) s"
    have d: "distinct (roomWidgets (contentsLayout ?s1))"
      using assms(1) by (simp add: calm_def onItem_def)
    show ?thesis
    proof (cases "underMouse s")
      case True
      with assms(2) DescriptionUpdate \<open>roomExists s roomid\<close> a
      have "s1 = ?s1\<lparr>isSortPending := True\<rparr>"
        by (simp add: updateRoomDescription_def Let_def onItem_def)
      with d show ?thesis
        by (simp add: calm_def)
    next
      case False
      with assms(2) DescriptionUpdate \<open>roomExists s roomid\<close> a
      have s1: "s1 = sortRoomsByLastMessage (?s1\<lparr>isSortPending := False\<rparr>)"
        by (simp add: updateRoomDescription_def Let_def onItem_def)
      from d have "distinct (roomWidgets (contentsLayout (?s1\<lparr>isSortPending := False\<rparr>)))"
        by simp
      then show ?thesis
        unfolding s1 by (rule calm_sort)
    qed
  qed
next
  case TimerShot
  show ?thesis
  proof (cases "timers s = 0")
    case True
    with assms TimerShot show ?thesis by simp
  next
    case False
    with assms(2) TimerShot have s1: "s1 = sortRoomsByLastMessage (s\<lparr>timers := timers s - 1\<rparr>)"
      by (simp add: timeout_def)
    have "distinct (roomWidgets (contentsLayout (s\<lparr>timers := timers s - 1\<rparr>)))"
      using assms(1) by (simp add: calm_def)
    then show ?thesis
      unfolding s1 by (rule calm_sort)
  qed
qed

lemma calm_run:
  "calm s \<Longrightarrow> run es s = Inr s' \<Longrightarrow> calm s'"
proof (induction es arbitrary: s)
  case Nil
  then show ?case by simp
next
  case (Cons e es)
  then show ?case
    by (auto split: sum.splits dest: calm_deliver)
qed

lemma timeout_settled:
  assumes "\<not> isSortPending s"
    and "contentsLayout (sortRoomsByLastMessage s) = contentsLayout s"
  shows "timeout s = s\<lparr>timers := timers s - 1\<rparr>"
proof -
  have "contentsLayout (sortRoomsByLastMessage (s\<lparr>timers := timers s - 1\<rparr>))
      = contentsLayout (sortRoomsByLastMessage s)"
    by (rule sort_layout_cong) simp_all
  with assms show ?thesis
    by (simp add: timeout_def sortRoomsByLastMessage_def Let_def)
qed

text \<open>
  C8. Start from a roster with no timer outstanding and run any sequence of leave
  events, changes of hovering, description updates and timer shots. If a timer is then
  outstanding and fires while no sort is pending, its call of
  \<^verbatim>\<open>sortRoomsByLastMessage\<close> leaves the state as it was, apart from the timer being
  used up. If it fires while a sort is pending, it sorts the layout and clears the flag,
  and a timer that fires right after it changes nothing.
\<close>

theorem timer_sorts_only_while_pending:
  assumes "distinct (roomWidgets (contentsLayout s0))" and "timers s0 = 0"
    and "run evs s0 = Inr s" and "0 < timers s"
  shows "(\<not> isSortPending s \<longrightarrow> timeout s = s\<lparr>timers := timers s - 1\<rparr>)
    \<and> (isSortPending s \<longrightarrow>
          timeout s = sortRoomsByLastMessage (s\<lparr>timers := timers s - 1\<rparr>)
          \<and> \<not> isSortPending (timeout s)
          \<and> timeout (timeout s) = (timeout s)\<lparr>timers := timers (timeout s) - 1\<rparr>)"
proof -
  from assms(1,2) have "calm s0"
    by (simp add: calm_def)
  from calm_run [OF this assms(3)] have calm: "calm s" .
  have d: "distinct (roomWidgets (contentsLayout (s\<lparr>timers := timers s - 1\<rparr>)))"
    using calm by (simp add: calm_def)
  have first: "\<not> isSortPending s \<longrightarrow> timeout s = s\<lparr>timers := timers s - 1\<rparr>"
  proof
    assume np: "\<not> isSortPending s"
    with calm assms(4) have "contentsLayout (sortRoomsByLastMessage s) = contentsLayout s"
      by (simp add: calm_def)
    with np show "timeout s = s\<lparr>timers := timers s - 1\<rparr>"
      by (rule timeout_settled)
  qed
  have after: "\<not> isSortPending (timeout s)"
    by (simp add: timeout_def sort_frame)
  have "contentsLayout (sortRoomsByLastMessage (timeout s)) = contentsLayout (timeout s)"
    unfolding timeout_def by (rule sort_idem [OF d])
  with after have "timeout (timeout s) = (timeout s)\<lparr>timers := timers (timeout s) - 1\<rparr>"
    by (rule timeout_settled)
  with first after show ?thesis
    by (simp add: timeout_def)
qed

theorem timer_sorts_only_while_pending_witness:
  "distinct (roomWidgets (contentsLayout rosterHovered))
   \<and> timers rosterHovered = 0
   \<and> run [DescriptionUpdate ''!a'' (message 300), LeaveEvent, LeaveEvent, TimerShot] rosterHovered
       = Inr (projr (run [DescriptionUpdate ''!a'' (message 300), LeaveEvent, LeaveEvent, TimerShot]
                rosterHovered))
   \<and> timers (projr (run [DescriptionUpdate ''!a'' (message 300), LeaveEvent, LeaveEvent, TimerShot]
                rosterHovered)) = 1
   \<and> \<not> isSortPending (projr (run [DescriptionUpdate ''!a'' (message 300), LeaveEvent, LeaveEvent,
                TimerShot] rosterHovered))
   \<and> contentsLayout (projr (run [DescriptionUpdate ''!a'' (message 300), LeaveEvent, LeaveEvent,
                TimerShot] rosterHovered)) = [RoomWidget 1, RoomWidget 2, RoomWidget 3]
   \<and> timeout (projr (run [DescriptionUpdate ''!a'' (message 300), LeaveEvent, LeaveEvent,
                TimerShot] rosterHovered))
       = (projr (run [DescriptionUpdate ''!a'' (message 300), LeaveEvent, LeaveEvent,
                TimerShot] rosterHovered))\<lparr>timers := 0\<rparr>"
proof -
  let ?evs = "[DescriptionUpdate ''!a'' (message 300), LeaveEvent, LeaveEvent, TimerShot]"
  let ?s = "projr (run ?evs rosterHovered)"
  have d: "distinct (roomWidgets (contentsLayout rosterHovered))"
    by (simp add: rosterHovered_def roster3_def)
  have t: "timers rosterHovered = 0"
    by (simp add: rosterHovered_def roster3_def)
  have r: "run ?evs rosterHovered = Inr ?s"
    by (simp add: rosterHovered_def roster3_def updateRoomDescription_def roomExists_def
          onItem_def leaveEvent_def timeout_def)
  have facts: "timers ?s = 1" "\<not> isSortPending ?s"
    "contentsLayout ?s = [RoomWidget 1, RoomWidget 2, RoomWidget 3]"
    by (simp_all add: rosterHovered_def roster3_def updateRoomDescription_def roomExists_def
          onItem_def leaveEvent_def timeout_def sortRoomsByLastMessage_def roomItem_def
          times_key_def message_def noMessage_def insertWidget_def removeWidget_def)
  from facts have pos: "0 < timers ?s"
    by simp
  from timer_sorts_only_while_pending [OF d t r pos] facts
  have "timeout ?s = ?s\<lparr>timers := 0\<rparr>"
    by simp
  with d t r facts show ?thesis
    by blast
qed

text \<open>
  The sequences above do not add rooms. \<^verbatim>\<open>addRoom\<close> puts the new widget in front of
  the last one without sorting and without setting the flag, so after it a timer that
  fires while no sort is pending does move widgets.
\<close>

lemma timer_after_addRoom:
  "run [DescriptionUpdate ''!a'' (message 300), LeaveEvent, LeaveEvent, TimerShot] roster2
     = Inr (projr (run [DescriptionUpdate ''!a'' (message 300), LeaveEvent, LeaveEvent, TimerShot] roster2))
   \<and> addRoom ''!d'' newcomer
         (projr (run [DescriptionUpdate ''!a'' (message 300), LeaveEvent, LeaveEvent, TimerShot] roster2))
       = Inr (projr (addRoom ''!d'' newcomer
         (projr (run [DescriptionUpdate ''!a'' (message 300), LeaveEvent, LeaveEvent, TimerShot] roster2))))
   \<and> \<not> isSortPending (projr (addRoom ''!d'' newcomer
         (projr (run [DescriptionUpdate ''!a'' (message 300), LeaveEvent, LeaveEvent, TimerShot] roster2))))
   \<and> timers (projr (addRoom ''!d'' newcomer
         (projr (run [DescriptionUpdate ''!a'' (message 300), LeaveEvent, LeaveEvent, TimerShot] roster2)))) = 1
   \<and> contentsLayout (projr (addRoom ''!d'' newcomer
         (projr (run [DescriptionUpdate ''!a'' (message 300), LeaveEvent, LeaveEvent, TimerShot] roster2))))
       = [RoomWidget 1, RoomWidget 3, RoomWidget 2]
   \<and> contentsLayout (timeout (projr (addRoom ''!d'' newcomer
         (projr (run [DescriptionUpdate ''!a'' (message 300), LeaveEvent, LeaveEvent, TimerShot] roster2)))))
       = [RoomWidget 1, RoomWidget 2, RoomWidget 3]"
  by (simp add: roster2_def updateRoomDescription_def roomExists_def
          onItem_def leaveEvent_def timeout_def sortRoomsByLastMessage_def roomItem_def
          times_key_def message_def noMessage_def insertWidget_def removeWidget_def
          addRoom_def freshAddr_def newRoomInfoListItem_def newcomer_def Let_def)

subsection \<open>highlightSelectedRoom\<close>

text \<open>
  C10. \<^verbatim>\<open>highlightSelectedRoom\<close> emits \<^verbatim>\<open>roomChanged\<close> for the id before it looks
  the id up: for every id the signal is the first thing sent; for an id that is not in the
  room map the only other effect is the warning, so the selected room, every item's
  pressed state and everything else stay as they were.
\<close>

theorem highlightSelectedRoom_signal_first:
  "(\<exists>rest. effects (highlightSelectedRoom room_id s) = effects s @ roomChanged room_id # rest)
   \<and> (\<not> roomExists s room_id \<longrightarrow>
        highlightSelectedRoom room_id s =
          s\<lparr>effects := effects s @ [roomChanged room_id,
                                     nhlog_warn ''roomlist: clicked unknown room_id'']\<rparr>)"
  by (simp add: highlightSelectedRoom_def emit_def roomExists_def Let_def)

theorem highlightSelectedRoom_signal_first_witness:
  "\<not> roomExists roster3 ''!z''
   \<and> highlightSelectedRoom ''!z'' roster3 =
       roster3\<lparr>effects := effects roster3 @ [roomChanged ''!z'',
                                     nhlog_warn ''roomlist: clicked unknown room_id'']\<rparr>"
proof -
  have absent: "\<not> roomExists roster3 ''!z''"
    by (simp add: roomExists_def roster3_def)
  with highlightSelectedRoom_signal_first [of "''!z''" roster3] show ?thesis
    by simp
qed

subsection \<open>Well-formed rosters stay well-formed\<close>

text \<open>
  The member functions keep \<open>RoomList_inv\<close>, and in a well-formed roster the scan of
  \<^verbatim>\<open>firstRoom\<close> stays in bounds at both of its call sites.
\<close>

lemma holdsRoom_iff:
  "holdsRoom h e \<longleftrightarrow> (\<exists>a. snd e = Some a \<and> roomId (h a) = fst e)"
  by (cases "(h, e)" rule: holdsRoom.cases) simp_all

lemma holdsRoom_cong:
  "(\<And>a. roomId (h' a) = roomId (h a)) \<Longrightarrow> holdsRoom h' e = holdsRoom h e"
  by (simp add: holdsRoom_iff)

lemma inv_layout_cong:
  assumes "RoomList_inv s" and "rooms t = rooms s"
    and "\<And>a. roomId (heap t a) = roomId (heap s a)"
    and "distinct (roomWidgets (contentsLayout t))"
    and "set (roomWidgets (contentsLayout t)) = set (roomWidgets (contentsLayout s))"
  shows "RoomList_inv t"
proof -
  have "holdsRoom (heap t) = holdsRoom (heap s)"
    by (rule ext) (rule holdsRoom_cong, rule assms(3))
  with assms show ?thesis
    by (simp add: RoomList_inv_def)
qed

lemma inv_heap_cong:
  assumes "RoomList_inv s" and "rooms t = rooms s" and "contentsLayout t = contentsLayout s"
    and "\<And>a. roomId (heap t a) = roomId (heap s a)"
  shows "RoomList_inv t"
proof (rule inv_layout_cong [OF assms(1,2)])
  show "distinct (roomWidgets (contentsLayout t))"
    using assms(1,3) by (simp add: RoomList_inv_def)
  show "set (roomWidgets (contentsLayout t)) = set (roomWidgets (contentsLayout s))"
    using assms(3) by simp
qed (rule assms(4))

lemma showItems_roomId: "roomId (showItems L h a) = roomId (h a)"
  by (simp add: showItems_apply)

lemma filterItems_roomId: "roomId (filterItems flt L h a) = roomId (h a)"
  by (simp add: filterItems_apply)

lemma inv_removeFilter: "RoomList_inv s \<Longrightarrow> RoomList_inv (removeFilter s)"
  by (erule inv_heap_cong) (simp_all add: removeFilter_def showItems_roomId)

lemma inv_highlightSelectedRoom:
  "RoomList_inv s \<Longrightarrow> RoomList_inv (highlightSelectedRoom room_id s)"
  by (erule inv_heap_cong)
     (simp_all add: highlightSelectedRoom_def Let_def emit_def pressRooms_fields)

lemma selectFirstVisible_inv:
  "RoomList_inv s \<Longrightarrow> RoomList_inv (selectFirstVisible L s)"
  by (simp add: selectFirstVisible_find inv_highlightSelectedRoom split: option.splits)

lemma inv_applyFilter: "RoomList_inv s \<Longrightarrow> RoomList_inv (applyFilter flt s)"
proof -
  assume inv: "RoomList_inv s"
  have "RoomList_inv (s\<lparr>heap := filterItems flt (contentsLayout s) (heap s)\<rparr>)"
    by (rule inv_heap_cong [OF inv]) (simp_all add: filterItems_roomId)
  then show ?thesis
    by (simp add: applyFilter_def Let_def selectFirstVisibleRoom_def selectFirstVisible_inv)
qed

lemma inv_sortRoomsByLastMessage:
  assumes "RoomList_inv s"
  shows "RoomList_inv (sortRoomsByLastMessage s)"
proof (rule inv_layout_cong [OF assms])
  from assms have d: "distinct (roomWidgets (contentsLayout s))"
    by (simp add: RoomList_inv_def)
  note sl = sorted_layout_widgets [OF d]
  note w = collect_times_widgets [where h = "heap s" and L = "contentsLayout s"]
  show "rooms (sortRoomsByLastMessage s) = rooms s"
    by (simp add: sortRoomsByLastMessage_def Let_def)
  show "roomId (heap (sortRoomsByLastMessage s) a) = roomId (heap s a)" for a
    by (simp add: sort_frame)
  show "distinct (roomWidgets (contentsLayout (sortRoomsByLastMessage s)))"
    by (rule sl(2))
  show "set (roomWidgets (contentsLayout (sortRoomsByLastMessage s)))
      = set (roomWidgets (contentsLayout s))"
    unfolding sl(1) by (rule w(1))
qed

lemma roomWidgets_dropDeleted:
  "roomWidgets (dropDeleted gone L) = filter (\<lambda>a. a \<notin> set gone) (roomWidgets L)"
  by (induction L rule: roomWidgets.induct) (simp_all add: dropDeleted_def)

lemma inv_erase:
  assumes "RoomList_inv s"
  shows "RoomList_inv (s\<lparr>rooms := filter (\<lambda>e. \<not> P e) (rooms s),
            contentsLayout := dropDeleted (owned (filter P (rooms s))) (contentsLayout s)\<rparr>)"
proof -
  have same: "k = k'" if "(k, Some a) \<in> set (rooms s)" and "(k', Some a) \<in> set (rooms s)"
    for k k' a
    using inv_ids [OF assms that(1)] inv_ids [OF assms that(2)] by simp
  have keep: "{a \<in> set (owned (rooms s)). a \<notin> set (owned (filter P (rooms s)))}
      = set (owned (filter (\<lambda>e. \<not> P e) (rooms s)))" (is "?A = ?B")
  proof (intro set_eqI iffI)
    fix a
    assume "a \<in> ?A"
    then obtain k where "(k, Some a) \<in> set (rooms s)" and "\<not> P (k, Some a)"
      by (auto simp: owned_iff)
    then show "a \<in> ?B"
      by (auto simp: owned_iff)
  next
    fix a
    assume "a \<in> ?B"
    then obtain k where k: "(k, Some a) \<in> set (rooms s)" "\<not> P (k, Some a)"
      by (auto simp: owned_iff)
    have "\<not> P (k', Some a)" if "(k', Some a) \<in> set (rooms s)" for k'
      using same [OF k(1) that] k(2) by simp
    with k(1) show "a \<in> ?A"
      by (auto simp: owned_iff)
  qed
  from assms have "sorted_wrt (<) (map fst (filter (\<lambda>e. \<not> P e) (rooms s)))"
    by (simp add: RoomList_inv_def sorted_wrt_map sorted_wrt_filter)
  moreover from assms have "list_all (holdsRoom (heap s)) (filter (\<lambda>e. \<not> P e) (rooms s))"
    by (simp add: RoomList_inv_def list_all_iff)
  moreover from assms
  have "distinct (roomWidgets (dropDeleted (owned (filter P (rooms s))) (contentsLayout s)))"
    by (simp add: RoomList_inv_def roomWidgets_dropDeleted)
  moreover from assms keep
  have "set (roomWidgets (dropDeleted (owned (filter P (rooms s))) (contentsLayout s)))
      = set (owned (filter (\<lambda>e. \<not> P e) (rooms s)))"
    by (simp add: RoomList_inv_def roomWidgets_dropDeleted)
  ultimately show ?thesis
    by (simp add: RoomList_inv_def)
qed

lemma inv_rooms_erase: "RoomList_inv s \<Longrightarrow> RoomList_inv (rooms_erase room_id s)"
  using inv_erase [of s "\<lambda>e. fst e = room_id"] by (simp add: rooms_erase_def)

lemma inv_cleanupInvites: "RoomList_inv s \<Longrightarrow> RoomList_inv (cleanupInvites invites s)"
  by (simp add: cleanupInvites_def erase_if_def inv_erase)

lemma inv_emit: "RoomList_inv s \<Longrightarrow> RoomList_inv (emit e s)"
  by (simp add: RoomList_inv_def emit_def)

lemma inv_onItem:
  "RoomList_inv s \<Longrightarrow> (\<And>w. roomId (f w) = roomId w) \<Longrightarrow> RoomList_inv (onItem a f s)"
  by (erule inv_heap_cong) (simp_all add: onItem_def)

lemma inv_flags:
  "RoomList_inv (s\<lparr>isSortPending := b\<rparr>) = RoomList_inv s"
  "RoomList_inv (s\<lparr>timers := n\<rparr>) = RoomList_inv s"
  "RoomList_inv (s\<lparr>underMouse := b\<rparr>) = RoomList_inv s"
  by (simp_all add: RoomList_inv_def)

lemma inv_select_first:
  assumes "RoomList_inv s"
  shows "RoomList_inv (emit (roomChanged k) (setPressedState a True s))"
  unfolding setPressedState_def by (intro inv_emit inv_onItem assms) simp

lemma inv_removeRoom:
  assumes "RoomList_inv s" and "removeRoom room_id reset s = Inr s'"
  shows "RoomList_inv s'"
proof -
  let ?s1 = "rooms_erase room_id s"
  have inv1: "RoomList_inv ?s1"
    using assms(1) by (rule inv_rooms_erase)
  show ?thesis
  proof (cases "rooms ?s1 = [] \<or> \<not> reset")
    case True
    with assms(2) have "s' = ?s1"
      by (auto simp: removeRoom_def Let_def)
    with inv1 show ?thesis by simp
  next
    case False
    from firstRoom_cases [of "rooms ?s1"] show ?thesis
    proof
      assume "firstRoom (rooms ?s1) = Inl EndIteratorDeref \<and> (\<forall>e \<in> set (rooms ?s1). snd e = None)"
      with False assms(2) show ?thesis
        by (simp add: removeRoom_def Let_def)
    next
      assume "\<exists>k a. firstRoom (rooms ?s1) = Inr (k, Some a) \<and> (k, Some a) \<in> set (rooms ?s1)"
      then obtain k a where "firstRoom (rooms ?s1) = Inr (k, Some a)"
        by blast
      with False assms(2) have "s' = emit (roomChanged k) (setPressedState a True ?s1)"
        by (simp add: removeRoom_def Let_def)
      with inv1 show ?thesis
        by (simp add: inv_select_first)
    qed
  qed
qed

lemma inv_updateUnreadMessageCount:
  assumes "RoomList_inv s" and "updateUnreadMessageCount roomid count s = Inr s'"
  shows "RoomList_inv s'"
proof (cases "roomExists s roomid")
  case False
  with assms show ?thesis
    by (auto simp: updateUnreadMessageCount_def inv_emit)
next
  case True
  with assms(2) obtain a where "map_of (rooms s) roomid = Some (Some a)"
    by (auto simp: updateUnreadMessageCount_def split: option.splits)
  with True assms(2)
  have "s' = calculateUnreadMessageCount (onItem a (\<lambda>w. w\<lparr>unreadMessageCount := count\<rparr>) s)"
    by (simp add: updateUnreadMessageCount_def)
  then show ?thesis
    unfolding calculateUnreadMessageCount_def
    by (simp add: inv_emit inv_onItem assms(1))
qed

lemma inv_updateRoomDescription:
  assumes "RoomList_inv s" and "updateRoomDescription roomid info s = Inr s'"
  shows "RoomList_inv s'"
proof (cases "roomExists s roomid")
  case False
  with assms show ?thesis
    by (auto simp: updateRoomDescription_def inv_emit)
next
  case True
  with assms(2) obtain a where a: "map_of (rooms s) roomid = Some (Some a)"
    by (auto simp: updateRoomDescription_def split: option.splits)
  let ?s1 = "onItem a (\<lambda>w. w\<lparr>lastMessageInfo := info\<rparr>) s"
  have inv1: "RoomList_inv ?s1"
    by (simp add: inv_onItem assms(1))
  show ?thesis
  proof (cases "underMouse s")
    case True
    with assms(2) \<open>roomExists s roomid\<close> a have "s' = ?s1\<lparr>isSortPending := True\<rparr>"
      by (simp add: updateRoomDescription_def Let_def onItem_def)
    with inv1 show ?thesis
      by (simp add: inv_flags)
  next
    case False
    with assms(2) \<open>roomExists s roomid\<close> a
    have "s' = sortRoomsByLastMessage (?s1\<lparr>isSortPending := False\<rparr>)"
      by (simp add: updateRoomDescription_def Let_def onItem_def)
    with inv1 show ?thesis
      by (simp add: inv_flags inv_sortRoomsByLastMessage)
  qed
qed

lemma inv_in_bounds:
  assumes "RoomList_inv s"
  shows "removeRoom room_id reset s \<noteq> Inl EndIteratorDeref"
proof
  assume "removeRoom room_id reset s = Inl EndIteratorDeref"
  with firstRoom_cases [of "rooms (rooms_erase room_id s)"]
  have ne: "rooms (rooms_erase room_id s) \<noteq> []"
    and "\<forall>e \<in> set (rooms (rooms_erase room_id s)). snd e = None"
    by (auto simp: removeRoom_def Let_def split: if_splits)
  then obtain e where "e \<in> set (rooms (rooms_erase room_id s))" and "snd e = None"
    by (cases "rooms (rooms_erase room_id s)") auto
  then have "(fst e, None) \<in> set (rooms (rooms_erase room_id s))"
    by (metis prod.collapse)
  with inv_owned [OF inv_rooms_erase [OF assms]] show False
    by blast
qed

lemma fold_max_init: "(n::nat) \<le> fold max xs n"
proof (induction xs arbitrary: n)
  case Nil
  show ?case by simp
next
  case (Cons y ys)
  have "n \<le> max y n" by simp
  also have "\<dots> \<le> fold max ys (max y n)" by (rule Cons.IH)
  finally show ?case by simp
qed

lemma fold_max_mem: "x \<in> set xs \<Longrightarrow> (x::nat) \<le> fold max xs n"
proof (induction xs arbitrary: n)
  case Nil
  then show ?case by simp
next
  case (Cons y ys)
  show ?case
  proof (cases "x = y")
    case True
    have "x \<le> max y n" using True by simp
    also have "\<dots> \<le> fold max ys (max y n)" by (rule fold_max_init)
    finally show ?thesis by simp
  next
    case False
    with Cons.prems have "x \<in> set ys" by simp
    from Cons.IH [OF this] show ?thesis by simp
  qed
qed

lemma freshAddr_fresh:
  "freshAddr s \<notin> set (owned (rooms s))" "freshAddr s \<notin> set (roomWidgets (contentsLayout s))"
proof -
  have "x < freshAddr s" if "x \<in> set (owned (rooms s) @ roomWidgets (contentsLayout s))" for x
    using fold_max_mem [OF that, of 0] by (simp add: freshAddr_def)
  then show "freshAddr s \<notin> set (owned (rooms s))"
    and "freshAddr s \<notin> set (roomWidgets (contentsLayout s))"
    by fastforce+
qed

lemma rooms_emplace_set:
  "map_of rs k = None \<Longrightarrow> set (rooms_emplace k v rs) = insert (k, v) (set rs)"
  by (induction k v rs rule: rooms_emplace.induct) (auto split: if_splits)

lemma rooms_emplace_sorted:
  "sorted_wrt (<) (map fst rs) \<Longrightarrow> map_of rs k = None \<Longrightarrow>
     sorted_wrt (<) (map fst (rooms_emplace k v rs))"
proof (induction k v rs rule: rooms_emplace.induct)
  case (1 k v)
  show ?case by simp
next
  case (2 k v k' v' rest)
  from "2.prems" have absent: "map_of rest k = None" and ne: "k \<noteq> k'"
    by (auto split: if_splits)
  show ?case
  proof (cases "k < k'")
    case True
    with "2.prems"(1) show ?thesis by auto
  next
    case False
    with ne have gt: "k' < k" by simp
    from "2.prems"(1) have "sorted_wrt (<) (map fst rest)" by simp
    from "2.IH" [OF False ne this absent] "2.prems"(1) gt False ne show ?thesis
      by (auto simp: rooms_emplace_set [OF absent])
  qed
qed

lemma roomWidgets_insertWidget:
  "set (roomWidgets (insertWidget pos a L)) = insert a (set (roomWidgets L))"
  "distinct (roomWidgets (insertWidget pos a L))
     \<longleftrightarrow> a \<notin> set (roomWidgets L) \<and> distinct (roomWidgets L)"
proof -
  have split: "roomWidgets (take n L) @ roomWidgets (drop n L) = roomWidgets L" for n
    unfolding roomWidgets_append [symmetric] by simp
  have mid: "roomWidgets (take n L @ RoomWidget a # drop n L)
      = roomWidgets (take n L) @ a # roomWidgets (drop n L)" for n
    by (simp add: roomWidgets_append)
  show "set (roomWidgets (insertWidget pos a L)) = insert a (set (roomWidgets L))"
  proof (cases "pos < 0")
    case True
    then show ?thesis
      by (simp add: insertWidget_def roomWidgets_append)
  next
    case False
    have "set (roomWidgets (take (nat pos) L) @ a # roomWidgets (drop (nat pos) L))
      = insert a (set (roomWidgets (take (nat pos) L) @ roomWidgets (drop (nat pos) L)))"
      by simp
    with False show ?thesis
      unfolding split by (simp add: insertWidget_def mid)
  qed
  show "distinct (roomWidgets (insertWidget pos a L))
     \<longleftrightarrow> a \<notin> set (roomWidgets L) \<and> distinct (roomWidgets L)"
  proof (cases "pos < 0")
    case True
    then show ?thesis
      by (auto simp: insertWidget_def roomWidgets_append)
  next
    case False
    have "distinct (roomWidgets (take (nat pos) L) @ a # roomWidgets (drop (nat pos) L))
      \<longleftrightarrow> a \<notin> set (roomWidgets (take (nat pos) L) @ roomWidgets (drop (nat pos) L))
          \<and> distinct (roomWidgets (take (nat pos) L) @ roomWidgets (drop (nat pos) L))"
      by auto
    with False show ?thesis
      unfolding split by (simp add: insertWidget_def mid)
  qed
qed

lemma addInvitedRoom_addRoom: "addInvitedRoom room_id info s = addRoom room_id info s"
  by (simp add: addInvitedRoom_def addRoom_def)

lemma inv_addRoom:
  assumes inv: "RoomList_inv s" and add: "addRoom room_id info s = Inr s'"
  shows "RoomList_inv s'"
proof -
  let ?a = "freshAddr s"
  let ?h = "(heap s)(?a := newRoomInfoListItem room_id info)"
  let ?rs = "rooms_emplace room_id (Some ?a) (rooms s)"
  let ?L = "insertWidget (int (length (contentsLayout s)) - 1) ?a (contentsLayout s)"
  from add have absent: "map_of (rooms s) room_id = None"
    by (auto simp: addRoom_def Let_def roomExists_def split: if_splits)
  with add have s': "s' = s\<lparr>heap := ?h, rooms := ?rs, contentsLayout := ?L\<rparr>"
    by (auto simp: addRoom_def Let_def roomExists_def split: if_splits)
  note fresh = freshAddr_fresh [of s]
  have entries: "set ?rs = insert (room_id, Some ?a) (set (rooms s))"
    by (rule rooms_emplace_set [OF absent])
  have "sorted_wrt (<) (map fst ?rs)"
    using inv absent by (simp add: RoomList_inv_def rooms_emplace_sorted)
  moreover have "list_all (holdsRoom ?h) ?rs"
    unfolding list_all_iff entries
  proof
    fix e
    assume e: "e \<in> insert (room_id, Some ?a) (set (rooms s))"
    show "holdsRoom ?h e"
    proof (cases "e = (room_id, Some ?a)")
      case True
      then show ?thesis
        by (simp add: newRoomInfoListItem_def)
    next
      case False
      with e have old: "e \<in> set (rooms s)" by simp
      then obtain b where b: "snd e = Some b" "roomId (heap s b) = fst e"
        using inv_owned [OF inv, of "fst e" "snd e"] by auto
      with old have "b \<in> set (owned (rooms s))"
        by (auto simp: owned_iff) (metis prod.collapse)
      with fresh(1) have "b \<noteq> ?a" by auto
      with b show ?thesis
        by (simp add: holdsRoom_iff)
    qed
  qed
  moreover have "distinct (roomWidgets ?L)"
    using inv fresh(2) by (simp add: roomWidgets_insertWidget RoomList_inv_def)
  moreover have "set (roomWidgets ?L) = set (owned ?rs)"
  proof -
    have "set (owned ?rs) = insert ?a (set (owned (rooms s)))"
      by (auto simp: owned_iff entries)
    with inv show ?thesis
      by (simp add: roomWidgets_insertWidget RoomList_inv_def)
  qed
  ultimately show ?thesis
    by (simp add: RoomList_inv_def s')
qed

lemma inv_addRooms:
  "RoomList_inv s \<Longrightarrow> addRooms info s = Inr s' \<Longrightarrow> RoomList_inv s'"
proof (induction info s rule: addRooms.induct)
  case (1 s)
  then show ?case by simp
next
  case (2 k v rest s)
  have step: "(if is_invite v then addInvitedRoom k v s else addRoom k v s) = addRoom k v s"
    by (simp add: addInvitedRoom_addRoom)
  from "2.prems"(2) obtain s1 where s1: "addRoom k v s = Inr s1" "addRooms rest s1 = Inr s'"
    unfolding addRooms.simps step by (auto split: sum.splits)
  from inv_addRoom [OF "2.prems"(1) s1(1)] have "RoomList_inv s1" .
  with "2.IH" [unfolded step, OF s1(1)] s1(2) show ?case
    by simp
qed

lemma inv_updateRoomDescriptions:
  "RoomList_inv s \<Longrightarrow> updateRoomDescriptions info s = Inr s' \<Longrightarrow> RoomList_inv s'"
proof (induction info s rule: updateRoomDescriptions.induct)
  case (1 s)
  then show ?case by simp
next
  case (2 k v rest s)
  from "2.prems"(2) obtain s1 where s1: "updateRoomDescription k (msgInfo v) s = Inr s1"
    "updateRoomDescriptions rest s1 = Inr s'"
    by (auto split: sum.splits)
  from inv_updateRoomDescription [OF "2.prems"(1) s1(1)] have "RoomList_inv s1" .
  with "2.IH" s1 show ?case
    by simp
qed

lemma inv_rooms_clear: "RoomList_inv s \<Longrightarrow> RoomList_inv (rooms_clear s)"
  by (simp add: RoomList_inv_def rooms_clear_def roomWidgets_dropDeleted)

lemma inv_initialize_fill:
  assumes "RoomList_inv s" and "initialize_fill info s = Inr s'"
  shows "RoomList_inv s'"
proof -
  let ?s0 = "rooms_clear (emit (nhlog_info ''initialize room list'') s)"
  from assms(2) obtain s1 where s1: "addRooms info ?s0 = Inr s1"
    "updateRoomDescriptions info s1 = Inr s'"
    by (auto simp: initialize_fill_def split: sum.splits)
  have "RoomList_inv ?s0"
    by (intro inv_rooms_clear inv_emit assms(1))
  from inv_addRooms [OF this s1(1)] have "RoomList_inv s1" .
  from inv_updateRoomDescriptions [OF this s1(2)] show ?thesis .
qed

lemma inv_initialize:
  assumes "RoomList_inv s" and "initialize info s = Inr s'"
  shows "RoomList_inv s'"
proof -
  from assms(2) obtain s2 where s2: "initialize_fill info s = Inr s2"
    by (auto simp: initialize_def split: sum.splits)
  from inv_initialize_fill [OF assms(1) s2] have inv2: "RoomList_inv s2" .
  show ?thesis
  proof (cases "rooms s2 = []")
    case True
    with assms(2) s2 inv2 show ?thesis
      by (simp add: initialize_def)
  next
    case False
    from firstRoom_cases [of "rooms s2"] show ?thesis
    proof
      assume "firstRoom (rooms s2) = Inl EndIteratorDeref \<and> (\<forall>e \<in> set (rooms s2). snd e = None)"
      with False assms(2) s2 show ?thesis
        by (simp add: initialize_def)
    next
      assume "\<exists>k a. firstRoom (rooms s2) = Inr (k, Some a) \<and> (k, Some a) \<in> set (rooms s2)"
      then obtain k a where "firstRoom (rooms s2) = Inr (k, Some a)"
        by blast
      with False assms(2) s2 have "s' = emit (roomChanged k) (setPressedState a True s2)"
        by (simp add: initialize_def)
      with inv2 show ?thesis
        by (simp add: inv_select_first)
    qed
  qed
qed

lemma addRoom_fault: "addRoom room_id info s = Inl f \<Longrightarrow> f = UseAfterFree"
  by (auto simp: addRoom_def Let_def split: if_splits)

lemma addRooms_fault: "addRooms info s = Inl f \<Longrightarrow> f = UseAfterFree"
proof (induction info s rule: addRooms.induct)
  case (1 s)
  then show ?case by simp
next
  case (2 k v rest s)
  have step: "(if is_invite v then addInvitedRoom k v s else addRoom k v s) = addRoom k v s"
    by (simp add: addInvitedRoom_addRoom)
  show ?case
  proof (cases "addRoom k v s")
    case (Inl g)
    with "2.prems" show ?thesis
      unfolding addRooms.simps step by (simp add: addRoom_fault)
  next
    case (Inr s1)
    with "2.prems" "2.IH" [unfolded step, OF Inr] show ?thesis
      unfolding addRooms.simps step by simp
  qed
qed

lemma updateRoomDescription_fault:
  "updateRoomDescription roomid info s = Inl f \<Longrightarrow> f = NullDeref"
  by (auto simp: updateRoomDescription_def Let_def split: if_splits option.splits)

lemma updateRoomDescriptions_fault:
  "updateRoomDescriptions info s = Inl f \<Longrightarrow> f = NullDeref"
proof (induction info s rule: updateRoomDescriptions.induct)
  case (1 s)
  then show ?case by simp
next
  case (2 k v rest s)
  show ?case
  proof (cases "updateRoomDescription k (msgInfo v) s")
    case (Inl g)
    with "2.prems" show ?thesis
      by (simp add: updateRoomDescription_fault)
  next
    case (Inr s1)
    with "2.prems" "2.IH" [OF Inr] show ?thesis
      by simp
  qed
qed

lemma initialize_fill_fault:
  "initialize_fill info s = Inl f \<Longrightarrow> f \<noteq> EndIteratorDeref"
  by (auto simp: initialize_fill_def split: sum.splits
      dest: addRooms_fault updateRoomDescriptions_fault)

lemma initialize_in_bounds:
  assumes "RoomList_inv s"
  shows "initialize info s \<noteq> Inl EndIteratorDeref"
proof
  assume bad: "initialize info s = Inl EndIteratorDeref"
  show False
  proof (cases "initialize_fill info s")
    case (Inl f)
    with bad have "f = EndIteratorDeref"
      by (simp add: initialize_def)
    with initialize_fill_fault [OF Inl] show False
      by simp
  next
    case (Inr s2)
    from inv_initialize_fill [OF assms Inr] have inv2: "RoomList_inv s2" .
    from bad Inr firstRoom_cases [of "rooms s2"]
    have "rooms s2 \<noteq> []" and "\<forall>e \<in> set (rooms s2). snd e = None"
      by (auto simp: initialize_def split: if_splits)
    then obtain e where "e \<in> set (rooms s2)" and "snd e = None"
      by (cases "rooms s2") auto
    then have "(fst e, None) \<in> set (rooms s2)"
      by (metis prod.collapse)
    with inv_owned [OF inv2] show False
      by blast
  qed
qed

end
